theory Spec2Isabelle
  imports Complex_Main "HOL-Library.AList"
begin

section \<open>Objects of the source model\<close>

text \<open>
  Every Python object is known by its identity \<open>id(obj)\<close>. The dictionaries of
  \<open>pyomo/solver/util.py\<close> are keyed by identities (or by components that hash by identity),
  and the comparisons \<open>is\<close> / \<open>is not\<close> compare identities.
\<close>

type_synonym ident = nat

text \<open>
  An expression tree. Every node carries its identity. The constructors are the kinds of node
  that \<open>_VarAndNamedExprCollector.visiting_potential_leaf\<close> tells apart:
  a native Python leaf (\<open>type(node) in nonpyomo_leaf_types\<close>), a \<open>NumericConstant\<close> (with its
  \<open>value\<close>), a variable, any other Pyomo leaf (a parameter, say), a named expression with its
  argument, an \<open>ExternalFunctionExpression\<close> and any other expression node with their arguments.
\<close>

datatype expr =
    NativeLeaf ident
  | NumericConstant ident real
  | VarLeaf ident
  | OtherLeaf ident
  | NamedExpression ident expr
  | ExternalFunctionExpression ident "expr list"
  | ExpressionNode ident "expr list"

fun id_of :: "expr \<Rightarrow> ident" where
  "id_of (NativeLeaf i) = i"
| "id_of (NumericConstant i x) = i"
| "id_of (VarLeaf i) = i"
| "id_of (OtherLeaf i) = i"
| "id_of (NamedExpression i e) = i"
| "id_of (ExternalFunctionExpression i es) = i"
| "id_of (ExpressionNode i es) = i"

fun is_nonpyomo_leaf :: "expr \<Rightarrow> bool" where
  "is_nonpyomo_leaf (NativeLeaf i) = True"
| "is_nonpyomo_leaf e = False"

fun is_variable_type :: "expr \<Rightarrow> bool" where
  "is_variable_type (VarLeaf i) = True"
| "is_variable_type e = False"

fun is_named_expression_type :: "expr \<Rightarrow> bool" where
  "is_named_expression_type (NamedExpression i e) = True"
| "is_named_expression_type e = False"

fun is_external_function_expression :: "expr \<Rightarrow> bool" where
  "is_external_function_expression (ExternalFunctionExpression i es) = True"
| "is_external_function_expression e = False"

fun is_expression_type :: "expr \<Rightarrow> bool" where
  "is_expression_type (NamedExpression i e) = True"
| "is_expression_type (ExternalFunctionExpression i es) = True"
| "is_expression_type (ExpressionNode i es) = True"
| "is_expression_type e = False"

fun is_numeric_constant :: "expr \<Rightarrow> bool" where
  "is_numeric_constant (NumericConstant i x) = True"
| "is_numeric_constant e = False"

fun args :: "expr \<Rightarrow> expr list" where
  "args (NamedExpression i e) = [e]"
| "args (ExternalFunctionExpression i es) = es"
| "args (ExpressionNode i es) = es"
| "args e = []"

datatype sense = minimize | maximize

datatype ctype = Constraint | SOSConstraint | OtherComponent

type_synonym interval = "real option \<times> real option \<times> int"

text \<open>
  What a block enumerates: \<open>component_data_objects(Var)\<close>, the values of its mutable
  \<open>Param\<close>s, \<open>component_data_objects(Param)\<close>, its active constraints, its active SOS
  constraints and its active objectives (sorted).
\<close>

record block =
  block_vars :: "ident list"
  block_mutable_params :: "ident list"
  block_param_data :: "ident list"
  block_constraints :: "ident list"
  block_sos_constraints :: "ident list"
  block_objectives :: "ident list"

text \<open>
  The live source model: the attributes that \<open>util.py\<close> reads from variables
  (\<open>_lb\<close>, \<open>_ub\<close>, \<open>fixed\<close>, \<open>domain.get_interval()\<close>, \<open>value\<close>), constraints
  (\<open>lower\<close>, \<open>body\<close>, \<open>upper\<close>, \<open>ctype\<close>), SOS constraints (\<open>get_variables()\<close>),
  objectives (\<open>expr\<close>, \<open>sense\<close>), named expressions (\<open>expr\<close>) and blocks.
  A bound that is \<open>None\<close> is \<open>None\<close> here.
\<close>

record pyomo =
  var_lb :: "ident \<Rightarrow> ident option"
  var_ub :: "ident \<Rightarrow> ident option"
  var_fixed :: "ident \<Rightarrow> bool"
  var_domain :: "ident \<Rightarrow> interval"
  var_val :: "ident \<Rightarrow> real option"
  con_lower :: "ident \<Rightarrow> expr option"
  con_body :: "ident \<Rightarrow> expr"
  con_upper :: "ident \<Rightarrow> expr option"
  con_ctype :: "ident \<Rightarrow> ctype"
  sos_variables :: "ident \<Rightarrow> ident list"
  obj_expr :: "ident \<Rightarrow> expr"
  obj_sense :: "ident \<Rightarrow> sense"
  named_expr :: "ident \<Rightarrow> expr"
  blocks :: "ident \<Rightarrow> block"

text \<open>
  Modelled from the spec: \<open>_GeneralVarData.fix\<close> and \<open>unfix\<close> (pyomo.core.base.var, not
  under src/). The spec lists "fix/unfix a variable (used for the scoped fixed-variable
  traversal)" and the fixed flag as one attribute of a variable beside its value: \<open>unfix()\<close>
  clears the flag, \<open>fix()\<close> without an argument sets it, and neither touches the value.
\<close>

definition var_unfix :: "ident \<Rightarrow> pyomo \<Rightarrow> pyomo" where
  "var_unfix v h = h\<lparr>var_fixed := (var_fixed h)(v := False)\<rparr>"

definition var_fix :: "ident \<Rightarrow> pyomo \<Rightarrow> pyomo" where
  "var_fix v h = h\<lparr>var_fixed := (var_fixed h)(v := True)\<rparr>"

text \<open>\<open>a is b\<close> for two bounds, either of which may be \<open>None\<close>.\<close>

definition same_object :: "expr option \<Rightarrow> expr option \<Rightarrow> bool" where
  "same_object a b = (map_option id_of a = map_option id_of b)"

section \<open>Dictionaries\<close>

text \<open>
  A Python dict is an association list in insertion order: \<open>AList.update\<close> overwrites a
  present key in place and appends a new one, \<open>AList.delete\<close> removes a key, \<open>map_of\<close> looks
  one up. A dict whose values are \<open>None\<close>, or the very object whose identity is the key, is the
  list of its keys.
\<close>

definition keys :: "('k \<times> 'v) list \<Rightarrow> 'k list" where
  "keys d = map fst d"

definition dict_add :: "'k \<Rightarrow> 'k list \<Rightarrow> 'k list" where
  "dict_add k ks = (if k \<in> set ks then ks else ks @ [k])"

definition dict_of_keys :: "'k list \<Rightarrow> 'k list" where
  "dict_of_keys xs = fold dict_add xs []"

section \<open>The expression walker\<close>

record collector =
  named_expressions_c :: "ident list"
  variables_c :: "ident list"
  fixed_vars_c :: "ident list"
  external_functions_c :: "ident list"

definition collector_init :: collector where
  "collector_init = \<lparr>named_expressions_c = [], variables_c = [], fixed_vars_c = [],
     external_functions_c = []\<rparr>"

text \<open>
  \<open>visiting_potential_leaf\<close>: the flag it returns (\<open>True\<close>: the node is a leaf) and the
  collector after its side effects. The value it returns beside the flag is always \<open>None\<close>.
\<close>

definition visiting_potential_leaf :: "pyomo \<Rightarrow> expr \<Rightarrow> collector \<Rightarrow> bool \<times> collector" where
  "visiting_potential_leaf h node c =
     (if is_nonpyomo_leaf node then (True, c)
      else if is_variable_type node then
        (let c1 = c\<lparr>variables_c := dict_add (id_of node) (variables_c c)\<rparr>;
             c2 = (if var_fixed h (id_of node)
                   then c1\<lparr>fixed_vars_c := dict_add (id_of node) (fixed_vars_c c1)\<rparr> else c1)
         in (True, c2))
      else if is_named_expression_type node then
        (False, c\<lparr>named_expressions_c := dict_add (id_of node) (named_expressions_c c)\<rparr>)
      else if is_external_function_expression node then
        (False, c\<lparr>external_functions_c := dict_add (id_of node) (external_functions_c c)\<rparr>)
      else if is_expression_type node then (False, c)
      else (True, c))"

text \<open>
  Modelled from the spec: \<open>ExpressionValueVisitor.dfs_postorder_stack\<close>
  (pyomo.core.expr.visitor, not under src/), the driver that \<open>collect_vars_and_named_exprs\<close>
  runs the visitor with. The spec has it as one traversal that "terminates at leaves": the
  driver asks \<open>visiting_potential_leaf\<close> at every node it reaches, stops there when the flag
  says the node is a leaf, and otherwise goes through the node's arguments from left to right.
  \<open>visit\<close> does nothing (\<open>pass\<close>), so only the order of the calls of
  \<open>visiting_potential_leaf\<close> matters.
\<close>

function dfs_postorder_stack :: "pyomo \<Rightarrow> expr \<Rightarrow> collector \<Rightarrow> collector" where
  "dfs_postorder_stack h node c =
     (case visiting_potential_leaf h node c of
        (True, c') \<Rightarrow> c'
      | (False, c') \<Rightarrow> fold (dfs_postorder_stack h) (args node) c')"
  by pat_completeness auto
termination
proof (relation "measure (\<lambda>(h, node, c). size node)")
  show "wf (measure (\<lambda>(h, node, c). size node))" by simp
next
  fix h :: pyomo and node :: expr and c :: collector and x :: "bool \<times> collector"
    and x1 :: bool and c' :: collector and z :: expr and ca :: collector
  assume "z \<in> set (args node)"
  then have "size z < size node"
    by (cases node) (auto simp: less_Suc_eq_le size_list_estimation')
  then show "((h, z, ca), (h, node, c)) \<in> measure (\<lambda>(h, node, c). size node)"
    by simp
qed

definition collect_vars_and_named_exprs ::
  "pyomo \<Rightarrow> expr \<Rightarrow> ident list \<times> ident list \<times> ident list \<times> ident list" where
  "collect_vars_and_named_exprs h e =
     (let c = dfs_postorder_stack h e collector_init
      in (named_expressions_c c, variables_c c, fixed_vars_c c, external_functions_c c))"

section \<open>State, errors and the backend\<close>

record UpdateConfig =
  check_for_new_or_removed_constraints :: bool
  check_for_new_or_removed_vars :: bool
  check_for_new_or_removed_params :: bool
  check_for_new_objective :: bool
  update_constraints :: bool
  update_vars :: bool
  update_params :: bool
  update_named_expressions :: bool
  update_objective :: bool
  treat_fixed_vars_as_params :: bool

text \<open>
  The exceptions of \<open>util.py\<close>: the \<open>ValueError\<close>s it raises itself (told apart by their
  message), the \<open>ValueError\<close> of unpacking the empty tuple an SOS constraint is recorded with,
  the \<open>KeyError\<close> of a missing dictionary key, the \<open>AttributeError\<close> of \<open>self._model\<close>
  being \<open>None\<close>, the \<open>assert\<close> in \<open>update\<close>, and whatever a backend method raises.
\<close>

datatype message =
    VarAlreadyAdded ident
  | ConAlreadyAdded ident
  | ConNotAdded ident
  | VarNotAdded ident
  | VarStillUsed ident
  | MultipleObjectives
  | NotEnoughValuesToUnpack

datatype error =
    ValueError message
  | KeyError ident
  | AttributeError
  | AssertionError
  | BackendError

text \<open>The abstract methods of \<open>PersistentSolverUtils\<close>, which a backend implements.\<close>

datatype call =
    Add_variables "ident list"
  | Add_params "ident list"
  | Add_constraints "ident list"
  | Add_sos_constraints "ident list"
  | Set_objective "ident option"
  | Remove_constraints "ident list"
  | Remove_sos_constraints "ident list"
  | Remove_variables "ident list"
  | Remove_params "ident list"
  | Update_variables "ident list"
  | Update_params

type_synonym var_snapshot =
  "ident \<times> ident option \<times> ident option \<times> bool \<times> interval \<times> real option"

type_synonym con_snapshot = "expr option \<times> expr \<times> expr option"

text \<open>
  What \<open>_vars_referenced_by_con\<close> holds for a constraint is the object that the code stores
  there. For a constraint it is the list of variables that the walker returned. For an SOS
  constraint it is the object that \<open>con.get_variables()\<close> returned, and \<open>get_variables\<close>
  (\<open>_SOSConstraintData\<close> in pyomo.core.base.sos, not under src/) is a generator function: the
  object yields every variable once, to whichever loop asks first, and a loop over it moves it
  on for everybody who holds it. A generator is known here by the variables it has not
  yielded yet.
\<close>

datatype iterable = List_of "ident list" | Generator "ident list"

text \<open>
  The attributes of \<open>PersistentSolverUtils\<close> (without the leading underscore). An entry of
  \<open>active_constraints\<close> is \<open>None\<close> for the empty tuple of an SOS constraint.
\<close>

record utils =
  model :: "ident option"
  active_constraints :: "(ident \<times> con_snapshot option) list"
  vars :: "(ident \<times> var_snapshot) list"
  params :: "ident list"
  objective :: "ident option"
  objective_expr :: "expr option"
  objective_sense :: "sense option"
  named_expressions :: "(ident \<times> (ident \<times> expr) list) list"
  external_functions :: "(ident \<times> ident list) list"
  obj_named_expressions :: "(ident \<times> expr) list"
  update_config :: UpdateConfig
  referenced_variables :: "(ident \<times> ident list \<times> ident list \<times> ident option) list"
  vars_referenced_by_con :: "(ident \<times> iterable) list"
  vars_referenced_by_obj :: "ident list"
  only_child_vars :: bool

text \<open>
  The world an operation runs in: the interface object, the live source model, the calls
  made to the backend so far (a call that raises is recorded too), and the backend's
  behaviour: whether a call raises, given the calls before it.
\<close>

record world =
  self :: utils
  heap :: pyomo
  calls :: "call list"
  raises :: "call list \<Rightarrow> call \<Rightarrow> bool"

text \<open>
  An operation returns the world it leaves and the exception it raised, if any. Python
  mutates in place, so the world at the moment of a \<open>raise\<close> is what the caller sees.
\<close>

type_synonym op = "world \<Rightarrow> world \<times> error option"

definition skip :: op where
  "skip w = (w, None)"

definition raise :: "error \<Rightarrow> op" where
  "raise e w = (w, Some e)"

definition modify :: "(utils \<Rightarrow> utils) \<Rightarrow> op" where
  "modify f w = (w\<lparr>self := f (self w)\<rparr>, None)"

definition modify_heap :: "(pyomo \<Rightarrow> pyomo) \<Rightarrow> op" where
  "modify_heap f w = (w\<lparr>heap := f (heap w)\<rparr>, None)"

definition backend :: "call \<Rightarrow> op" where
  "backend c w =
     (w\<lparr>calls := calls w @ [c]\<rparr>, if raises w (calls w) c then Some BackendError else None)"

text \<open>Statements in sequence: the first exception ends the run.\<close>

fun run :: "op list \<Rightarrow> op" where
  "run [] w = (w, None)"
| "run (f # fs) w = (case f w of (w', None) \<Rightarrow> run fs w' | (w', Some e) \<Rightarrow> (w', Some e))"

definition for_each :: "('a \<Rightarrow> op) \<Rightarrow> 'a list \<Rightarrow> op" where
  "for_each body xs = run (map body xs)"

definition only_if :: "bool \<Rightarrow> op \<Rightarrow> op" where
  "only_if b f = (if b then f else skip)"

text \<open>A computation that only reads the world and may raise, and the statements after it.\<close>

definition reading :: "(world \<Rightarrow> error + 'a) \<Rightarrow> ('a \<Rightarrow> op) \<Rightarrow> op" where
  "reading r k w = (case r w of Inl e \<Rightarrow> (w, Some e) | Inr x \<Rightarrow> k x w)"

text \<open>\<open>del d[k]\<close> on one of the dictionaries of the interface object.\<close>

definition del_item ::
  "(utils \<Rightarrow> (ident \<times> 'v) list) \<Rightarrow>
   (((ident \<times> 'v) list \<Rightarrow> (ident \<times> 'v) list) \<Rightarrow> utils \<Rightarrow> utils) \<Rightarrow> ident \<Rightarrow> op" where
  "del_item field field_update k w =
     (if k \<in> set (keys (field (self w))) then modify (field_update (AList.delete k)) w
      else raise (KeyError k) w)"

section \<open>Variables and parameters\<close>

definition snapshot :: "pyomo \<Rightarrow> ident \<Rightarrow> var_snapshot" where
  "snapshot h v = (v, var_lb h v, var_ub h v, var_fixed h v, var_domain h v, var_val h v)"

definition add_variables_body :: "ident \<Rightarrow> op" where
  "add_variables_body v w =
     (if v \<in> set (keys (referenced_variables (self w)))
      then raise (ValueError (VarAlreadyAdded v)) w
      else modify (\<lambda>s. s\<lparr>referenced_variables := AList.update v ([], [], None) (referenced_variables s),
                          vars := AList.update v (snapshot (heap w) v) (vars s)\<rparr>) w)"

definition add_variables :: "ident list \<Rightarrow> op" where
  "add_variables variables = run [for_each add_variables_body variables, backend (Add_variables variables)]"

definition add_params :: "ident list \<Rightarrow> op" where
  "add_params ps = run [for_each (\<lambda>p. modify (params_update (dict_add p))) ps, backend (Add_params ps)]"

definition check_for_new_vars :: "ident list \<Rightarrow> op" where
  "check_for_new_vars variables w =
     add_variables
       (fold (\<lambda>v new_vars. if v \<notin> set (keys (referenced_variables (self w)))
                            then dict_add v new_vars else new_vars) variables []) w"

definition remove_variables_body :: "ident \<Rightarrow> op" where
  "remove_variables_body v w =
     (case map_of (referenced_variables (self w)) v of
        None \<Rightarrow> raise (ValueError (VarNotAdded v)) w
      | Some (cons_using, sos_using, obj_using) \<Rightarrow>
          if cons_using \<noteq> [] \<or> sos_using \<noteq> [] \<or> obj_using \<noteq> None
          then raise (ValueError (VarStillUsed v)) w
          else run [modify (referenced_variables_update (AList.delete v)),
                    del_item vars vars_update v] w)"

definition remove_variables :: "ident list \<Rightarrow> op" where
  "remove_variables variables =
     run [backend (Remove_variables variables), for_each remove_variables_body variables]"

fun vars_to_remove :: "utils \<Rightarrow> ident list \<Rightarrow> ident list \<Rightarrow> error + ident list" where
  "vars_to_remove s [] acc = Inr acc"
| "vars_to_remove s (v # vs) acc =
     (case map_of (referenced_variables s) v of
        None \<Rightarrow> Inl (KeyError v)
      | Some (ref_cons, ref_sos, ref_obj) \<Rightarrow>
          vars_to_remove s vs
            (if ref_cons = [] \<and> ref_sos = [] \<and> ref_obj = None then dict_add v acc else acc))"

definition check_to_remove_vars :: "ident list \<Rightarrow> op" where
  "check_to_remove_vars variables =
     reading (\<lambda>w. vars_to_remove (self w) variables []) remove_variables"

definition remove_params :: "ident list \<Rightarrow> op" where
  "remove_params ps =
     run [backend (Remove_params ps),
          for_each (\<lambda>p w. if p \<in> set (params (self w))
                           then modify (params_update (removeAll p)) w
                           else raise (KeyError p) w) ps]"

definition update_variables :: "ident list \<Rightarrow> op" where
  "update_variables variables =
     run [for_each (\<lambda>v w. modify (vars_update (AList.update v (snapshot (heap w) v))) w) variables,
          backend (Update_variables variables)]"

section \<open>The reference-count entries\<close>

text \<open>
  \<open>self._referenced_variables[id(v)]\<close> is the list \<open>[cons, sos, obj]\<close>. Writing an element
  of it raises \<open>KeyError\<close> when the variable has no entry; \<open>pop(con)\<close> raises \<open>KeyError\<close>
  when the constraint is not in the inner dictionary.
\<close>

definition link_con :: "ident \<Rightarrow> ident \<Rightarrow> op" where
  "link_con con v w =
     (case map_of (referenced_variables (self w)) v of
        None \<Rightarrow> raise (KeyError v) w
      | Some (ref_cons, ref_sos, ref_obj) \<Rightarrow>
          modify (referenced_variables_update
                    (AList.update v (dict_add con ref_cons, ref_sos, ref_obj))) w)"

definition link_sos :: "ident \<Rightarrow> ident \<Rightarrow> op" where
  "link_sos con v w =
     (case map_of (referenced_variables (self w)) v of
        None \<Rightarrow> raise (KeyError v) w
      | Some (ref_cons, ref_sos, ref_obj) \<Rightarrow>
          modify (referenced_variables_update
                    (AList.update v (ref_cons, dict_add con ref_sos, ref_obj))) w)"

definition link_obj :: "ident option \<Rightarrow> ident \<Rightarrow> op" where
  "link_obj obj v w =
     (case map_of (referenced_variables (self w)) v of
        None \<Rightarrow> raise (KeyError v) w
      | Some (ref_cons, ref_sos, ref_obj) \<Rightarrow>
          modify (referenced_variables_update (AList.update v (ref_cons, ref_sos, obj))) w)"

definition unlink_con :: "ident \<Rightarrow> ident \<Rightarrow> op" where
  "unlink_con con v w =
     (case map_of (referenced_variables (self w)) v of
        None \<Rightarrow> raise (KeyError v) w
      | Some (ref_cons, ref_sos, ref_obj) \<Rightarrow>
          if con \<in> set ref_cons
          then modify (referenced_variables_update
                         (AList.update v (removeAll con ref_cons, ref_sos, ref_obj))) w
          else raise (KeyError con) w)"

definition unlink_sos :: "ident \<Rightarrow> ident \<Rightarrow> op" where
  "unlink_sos con v w =
     (case map_of (referenced_variables (self w)) v of
        None \<Rightarrow> raise (KeyError v) w
      | Some (ref_cons, ref_sos, ref_obj) \<Rightarrow>
          if con \<in> set ref_sos
          then modify (referenced_variables_update
                         (AList.update v (ref_cons, removeAll con ref_sos, ref_obj))) w
          else raise (KeyError con) w)"

section \<open>Constraints, SOS constraints and the objective\<close>

text \<open>
  \<open>for v in variables\<close> over the object held by \<open>_vars_referenced_by_con[con]\<close>. A list is
  walked as it is. A generator has moved past a variable when the body of the loop runs for
  it, and stays where it is when the body raises.
\<close>

fun drain :: "ident \<Rightarrow> (ident \<Rightarrow> op) \<Rightarrow> ident list \<Rightarrow> op" where
  "drain con body [] = skip"
| "drain con body (v # vs) =
     run [modify (vars_referenced_by_con_update (AList.update con (Generator vs))),
          body v,
          drain con body vs]"

fun walk :: "ident \<Rightarrow> iterable \<Rightarrow> (ident \<Rightarrow> op) \<Rightarrow> op" where
  "walk con (List_of vs) body = for_each body vs"
| "walk con (Generator vs) body = drain con body vs"

text \<open>
  \<open>self._check_to_remove_vars(self._vars_referenced_by_con[con])\<close>: the loop of
  \<open>_check_to_remove_vars\<close> walks the object to its end, or to the first variable without a
  reference-count entry, where it raises.
\<close>

definition unwalked :: "utils \<Rightarrow> ident list \<Rightarrow> ident list" where
  "unwalked s vs = tl (dropWhile (\<lambda>v. v \<in> set (keys (referenced_variables s))) vs)"

definition check_to_remove_vars_of :: "ident \<Rightarrow> op" where
  "check_to_remove_vars_of con w =
     (case map_of (vars_referenced_by_con (self w)) con of
        None \<Rightarrow> raise (KeyError con) w
      | Some (List_of vs) \<Rightarrow> check_to_remove_vars vs w
      | Some (Generator vs) \<Rightarrow>
          run [modify (vars_referenced_by_con_update
                         (AList.update con (Generator (unwalked (self w) vs)))),
               check_to_remove_vars vs] w)"

text \<open>
  One iteration of the loop of \<open>add_constraints\<close>; it returns \<open>all_fixed_vars\<close> as the
  iteration leaves it.
\<close>

definition add_constraints_body ::
  "ident \<Rightarrow> ident list \<Rightarrow> world \<Rightarrow> world \<times> (error + ident list)" where
  "add_constraints_body con all_fixed_vars w =
     (if con \<in> set (keys (named_expressions (self w)))
      then (w, Inl (ValueError (ConAlreadyAdded con)))
      else
        (let h = heap w;
             (named_exprs, variables, fixed_vars, ext_functions) =
                collect_vars_and_named_exprs h (con_body h con);
             unfixing = (\<not> treat_fixed_vars_as_params (update_config (self w)))
         in case run
              [modify (active_constraints_update
                 (AList.update con (Some (con_lower h con, con_body h con, con_upper h con)))),
               only_if (\<not> only_child_vars (self w)) (check_for_new_vars variables),
               modify (named_expressions_update
                 (AList.update con (map (\<lambda>e. (e, named_expr h e)) named_exprs))),
               only_if (ext_functions \<noteq> [])
                 (modify (external_functions_update (AList.update con ext_functions))),
               modify (vars_referenced_by_con_update (AList.update con (List_of variables))),
               for_each (link_con con) variables,
               only_if unfixing (for_each (\<lambda>v. modify_heap (var_unfix v)) fixed_vars)] w of
              (w', Some e) \<Rightarrow> (w', Inl e)
            | (w', None) \<Rightarrow>
                (w', Inr (if unfixing then fold dict_add fixed_vars all_fixed_vars
                          else all_fixed_vars))))"

fun add_constraints_loop ::
  "ident list \<Rightarrow> ident list \<Rightarrow> world \<Rightarrow> world \<times> (error + ident list)" where
  "add_constraints_loop [] all_fixed_vars w = (w, Inr all_fixed_vars)"
| "add_constraints_loop (con # cons) all_fixed_vars w =
     (case add_constraints_body con all_fixed_vars w of
        (w', Inl e) \<Rightarrow> (w', Inl e)
      | (w', Inr all_fixed_vars') \<Rightarrow> add_constraints_loop cons all_fixed_vars' w')"

definition add_constraints :: "ident list \<Rightarrow> op" where
  "add_constraints cons w =
     (case add_constraints_loop cons [] w of
        (w', Inl e) \<Rightarrow> (w', Some e)
      | (w', Inr all_fixed_vars) \<Rightarrow>
          run [backend (Add_constraints cons),
               for_each (\<lambda>v. modify_heap (var_fix v)) all_fixed_vars] w')"

definition add_sos_constraints_body :: "ident \<Rightarrow> op" where
  "add_sos_constraints_body con w =
     (if con \<in> set (keys (vars_referenced_by_con (self w)))
      then raise (ValueError (ConAlreadyAdded con)) w
      else
        (let variables = sos_variables (heap w) con;
             not_yielded = (if only_child_vars (self w) then variables else [])
         in run
              [modify (active_constraints_update (AList.update con None)),
               only_if (\<not> only_child_vars (self w)) (check_for_new_vars variables),
               modify (named_expressions_update (AList.update con [])),
               modify (vars_referenced_by_con_update (AList.update con (Generator not_yielded))),
               drain con (link_sos con) not_yielded] w))"

definition add_sos_constraints :: "ident list \<Rightarrow> op" where
  "add_sos_constraints cons =
     run [for_each add_sos_constraints_body cons, backend (Add_sos_constraints cons)]"

definition remove_constraints_body :: "ident \<Rightarrow> op" where
  "remove_constraints_body con w =
     (if con \<notin> set (keys (named_expressions (self w)))
      then raise (ValueError (ConNotAdded con)) w
      else
        (case map_of (vars_referenced_by_con (self w)) con of
           None \<Rightarrow> raise (KeyError con) w
         | Some variables \<Rightarrow>
             run [walk con variables (unlink_con con),
                  only_if (\<not> only_child_vars (self w)) (check_to_remove_vars_of con),
                  del_item active_constraints active_constraints_update con,
                  del_item named_expressions named_expressions_update con,
                  modify (external_functions_update (AList.delete con)),
                  del_item vars_referenced_by_con vars_referenced_by_con_update con] w))"

definition remove_constraints :: "ident list \<Rightarrow> op" where
  "remove_constraints cons =
     run [backend (Remove_constraints cons), for_each remove_constraints_body cons]"

definition remove_sos_constraints_body :: "ident \<Rightarrow> op" where
  "remove_sos_constraints_body con w =
     (case map_of (vars_referenced_by_con (self w)) con of
        None \<Rightarrow> raise (ValueError (ConNotAdded con)) w
      | Some variables \<Rightarrow>
          run [walk con variables (unlink_sos con),
               check_to_remove_vars_of con,
               del_item active_constraints active_constraints_update con,
               del_item named_expressions named_expressions_update con,
               del_item vars_referenced_by_con vars_referenced_by_con_update con] w)"

definition remove_sos_constraints :: "ident list \<Rightarrow> op" where
  "remove_sos_constraints cons =
     run [backend (Remove_sos_constraints cons), for_each remove_sos_constraints_body cons]"

definition set_objective :: "ident option \<Rightarrow> op" where
  "set_objective obj =
     run
       [\<lambda>w. (case objective (self w) of
               None \<Rightarrow> skip w
             | Some old \<Rightarrow>
                 run [for_each (link_obj None) (vars_referenced_by_obj (self w)),
                      only_if (\<not> only_child_vars (self w))
                        (check_to_remove_vars (vars_referenced_by_obj (self w))),
                      modify (external_functions_update (AList.delete old))] w),
        \<lambda>w. (case obj of
               Some ob \<Rightarrow>
                 (let h = heap w;
                      (named_exprs, variables, fixed_vars, ext_functions) =
                         collect_vars_and_named_exprs h (obj_expr h ob)
                  in run
                       [modify (\<lambda>s. s\<lparr>objective := Some ob,
                                       objective_expr := Some (obj_expr h ob),
                                       objective_sense := Some (obj_sense h ob)\<rparr>),
                        only_if (\<not> only_child_vars (self w)) (check_for_new_vars variables),
                        modify (\<lambda>s. s\<lparr>obj_named_expressions :=
                                         map (\<lambda>i. (i, named_expr h i)) named_exprs\<rparr>),
                        only_if (ext_functions \<noteq> [])
                          (modify (external_functions_update (AList.update ob ext_functions))),
                        modify (\<lambda>s. s\<lparr>vars_referenced_by_obj := variables\<rparr>),
                        for_each (link_obj (Some ob)) variables,
                        only_if (\<not> treat_fixed_vars_as_params (update_config (self w)))
                          (for_each (\<lambda>v. modify_heap (var_unfix v)) fixed_vars),
                        backend (Set_objective (Some ob)),
                        for_each (\<lambda>v. modify_heap (var_fix v)) fixed_vars] w)
             | None \<Rightarrow>
                 run [modify (\<lambda>s. s\<lparr>vars_referenced_by_obj := [],
                                      objective := None,
                                      objective_expr := None,
                                      objective_sense := None,
                                      obj_named_expressions := []\<rparr>),
                      backend (Set_objective None)] w)]"

section \<open>Blocks\<close>

definition get_objective :: "block \<Rightarrow> error + ident option" where
  "get_objective b =
     (case block_objectives b of
        [] \<Rightarrow> Inr None
      | [ob] \<Rightarrow> Inr (Some ob)
      | ob # ob' # obs \<Rightarrow> Inl (ValueError MultipleObjectives))"

definition add_block :: "ident \<Rightarrow> op" where
  "add_block blk w =
     (let b = blocks (heap w) blk
      in run
           [add_params (dict_of_keys (block_mutable_params b)),
            only_if (only_child_vars (self w)) (add_variables (dict_of_keys (block_vars b))),
            add_constraints (block_constraints b),
            add_sos_constraints (block_sos_constraints b),
            reading (\<lambda>w. get_objective b)
              (\<lambda>obj. only_if (obj \<noteq> None) (set_objective obj))] w)"

definition remove_block :: "ident \<Rightarrow> op" where
  "remove_block blk w =
     (let b = blocks (heap w) blk
      in run
           [remove_constraints (block_constraints b),
            remove_sos_constraints (block_sos_constraints b),
            only_if (only_child_vars (self w)) (remove_variables (dict_of_keys (block_vars b))),
            remove_params (dict_of_keys (block_param_data b))] w)"

text \<open>
  \<open>__init__\<close>. The configuration it starts with is \<open>UpdateConfig()\<close>, whose defaults are
  declared outside src/: it is a parameter here.
\<close>

definition init :: "UpdateConfig \<Rightarrow> bool \<Rightarrow> utils" where
  "init config ocv =
     \<lparr>model = None, active_constraints = [], vars = [], params = [], objective = None,
      objective_expr = None, objective_sense = None, named_expressions = [],
      external_functions = [], obj_named_expressions = [], update_config = config,
      referenced_variables = [], vars_referenced_by_con = [], vars_referenced_by_obj = [],
      only_child_vars = ocv\<rparr>"

definition set_instance :: "ident \<Rightarrow> op" where
  "set_instance m =
     run [modify (\<lambda>s. (init (update_config s) False)\<lparr>model := Some m\<rparr>),
          add_block m,
          \<lambda>w. only_if (objective (self w) = None) (set_objective None) w]"

section \<open>The synchronization pass\<close>

text \<open>
  The first part of \<open>update\<close> only reads: it fills the lists \<open>new_vars\<close>, \<open>old_vars\<close>,
  \<open>new_params\<close>, \<open>old_params\<close>, \<open>new_cons\<close>, \<open>old_cons\<close>, \<open>new_sos\<close>, \<open>old_sos\<close> and the
  dictionaries \<open>current_vars_dict\<close>, \<open>current_cons_dict\<close>, \<open>current_sos_dict\<close>,
  \<open>start_vars\<close> (of which only the keys are used). The timer only observes.
\<close>

record discovery =
  new_vars :: "ident list"
  old_vars :: "ident list"
  new_params :: "ident list"
  old_params :: "ident list"
  new_cons :: "ident list"
  old_cons :: "ident list"
  new_sos :: "ident list"
  old_sos :: "ident list"
  current_vars_dict :: "ident list"
  current_cons_dict :: "ident list"
  current_sos_dict :: "ident list"
  start_vars :: "ident list"

definition the_model :: "utils \<Rightarrow> pyomo \<Rightarrow> error + block" where
  "the_model s h = (case model s of None \<Rightarrow> Inl AttributeError | Some m \<Rightarrow> Inr (blocks h m))"

definition discover_vars ::
  "utils \<Rightarrow> pyomo \<Rightarrow> error + ident list \<times> ident list \<times> ident list \<times> ident list" where
  "discover_vars s h =
     (let config = update_config s
      in if only_child_vars s \<and> (check_for_new_or_removed_vars config \<or> update_vars config)
         then (case the_model s h of
                 Inl e \<Rightarrow> Inl e
               | Inr b \<Rightarrow>
                   (let current = dict_of_keys (block_vars b)
                    in Inr (current,
                            filter (\<lambda>v. v \<notin> set (keys (vars s))) current,
                            map (\<lambda>(v_id, v_tuple). fst v_tuple)
                              (filter (\<lambda>(v_id, v_tuple). v_id \<notin> set current) (vars s)),
                            [])))
         else if update_vars config then Inr ([], [], [], keys (vars s))
         else Inr ([], [], [], []))"

definition discover_params :: "utils \<Rightarrow> pyomo \<Rightarrow> error + ident list \<times> ident list" where
  "discover_params s h =
     (if check_for_new_or_removed_params (update_config s)
      then (case the_model s h of
              Inl e \<Rightarrow> Inl e
            | Inr b \<Rightarrow>
                (let current = dict_of_keys (block_mutable_params b)
                 in Inr (filter (\<lambda>p. p \<notin> set (params s)) current,
                         filter (\<lambda>p. p \<notin> set current) (params s))))
      else Inr ([], []))"

fun classify_old ::
  "pyomo \<Rightarrow> ident list \<Rightarrow> ident list \<Rightarrow> ident list \<Rightarrow> ident list \<Rightarrow> ident list
     \<Rightarrow> error + ident list \<times> ident list" where
  "classify_old h cur_cons cur_sos [] oc os = Inr (oc, os)"
| "classify_old h cur_cons cur_sos (c # cs) oc os =
     (if c \<notin> set cur_cons \<and> c \<notin> set cur_sos
      then (if con_ctype h c = Constraint then classify_old h cur_cons cur_sos cs (oc @ [c]) os
            else if con_ctype h c = SOSConstraint
                 then classify_old h cur_cons cur_sos cs oc (os @ [c])
                 else Inl AssertionError)
      else classify_old h cur_cons cur_sos cs oc os)"

definition discover :: "world \<Rightarrow> error + discovery" where
  "discover w =
     (let s = self w; h = heap w; config = update_config s
      in case discover_vars s h of
           Inl e \<Rightarrow> Inl e
         | Inr (cur_vars, nv, ov, sv) \<Rightarrow>
        (case discover_params s h of
           Inl e \<Rightarrow> Inl e
         | Inr (np, op) \<Rightarrow>
        (if check_for_new_or_removed_constraints config \<or> update_constraints config
         then (case the_model s h of
                 Inl e \<Rightarrow> Inl e
               | Inr b \<Rightarrow>
                   (let cur_cons = dict_of_keys (block_constraints b);
                        cur_sos = dict_of_keys (block_sos_constraints b);
                        tracked = keys (vars_referenced_by_con s)
                    in case classify_old h cur_cons cur_sos tracked [] [] of
                         Inl e \<Rightarrow> Inl e
                       | Inr (oc, os) \<Rightarrow>
                           Inr \<lparr>new_vars = nv, old_vars = ov, new_params = np, old_params = op,
                                new_cons = filter (\<lambda>c. c \<notin> set tracked) cur_cons,
                                old_cons = oc,
                                new_sos = filter (\<lambda>c. c \<notin> set tracked) cur_sos,
                                old_sos = os,
                                current_vars_dict = cur_vars, current_cons_dict = cur_cons,
                                current_sos_dict = cur_sos, start_vars = sv\<rparr>))
         else Inr \<lparr>new_vars = nv, old_vars = ov, new_params = np, old_params = op,
                   new_cons = [], old_cons = [], new_sos = [], old_sos = [],
                   current_vars_dict = cur_vars, current_cons_dict = [],
                   current_sos_dict = [], start_vars = sv\<rparr>)))"

text \<open>The comparison of a recorded constraint with the live one (lines 594 to 618).\<close>

definition numeric_constant_value :: "expr option \<Rightarrow> real option" where
  "numeric_constant_value b =
     (case b of Some (NumericConstant i x) \<Rightarrow> Some x | _ \<Rightarrow> None)"

definition equal_numeric_constants :: "expr option \<Rightarrow> expr option \<Rightarrow> bool" where
  "equal_numeric_constants new_bound bound =
     (case (numeric_constant_value new_bound, numeric_constant_value bound) of
        (Some x, Some y) \<Rightarrow> x = y
      | _ \<Rightarrow> False)"

definition to_remove_and_add :: "con_snapshot \<Rightarrow> con_snapshot \<Rightarrow> bool" where
  "to_remove_and_add recorded live =
     (case recorded of (lower, body, upper) \<Rightarrow>
      case live of (new_lower, new_body, new_upper) \<Rightarrow>
        if id_of new_body \<noteq> id_of body then True
        else if \<not> same_object new_lower lower \<and> \<not> equal_numeric_constants new_lower lower
        then True
        else if \<not> same_object new_upper upper \<and> \<not> equal_numeric_constants new_upper upper
        then True
        else False)"

fun diff_constraints_loop ::
  "utils \<Rightarrow> pyomo \<Rightarrow> ident list \<Rightarrow> ident list \<Rightarrow> error + ident list" where
  "diff_constraints_loop s h [] cons_to_remove_and_add = Inr cons_to_remove_and_add"
| "diff_constraints_loop s h (c # cs) cons_to_remove_and_add =
     (case map_of (active_constraints s) c of
        None \<Rightarrow> Inl (KeyError c)
      | Some None \<Rightarrow> Inl (ValueError NotEnoughValuesToUnpack)
      | Some (Some recorded) \<Rightarrow>
          diff_constraints_loop s h cs
            (if to_remove_and_add recorded (con_lower h c, con_body h c, con_upper h c)
             then dict_add c cons_to_remove_and_add else cons_to_remove_and_add))"

definition cons_to_update :: "discovery \<Rightarrow> ident list" where
  "cons_to_update d = filter (\<lambda>c. c \<notin> set (new_cons d)) (current_cons_dict d)"

definition sos_to_update :: "discovery \<Rightarrow> ident list" where
  "sos_to_update d = filter (\<lambda>c. c \<notin> set (new_sos d)) (current_sos_dict d)"

definition diff_constraints :: "discovery \<Rightarrow> world \<Rightarrow> error + ident list" where
  "diff_constraints d w =
     (if update_constraints (update_config (self w))
      then diff_constraints_loop (self w) (heap w) (cons_to_update d) []
      else Inr [])"

text \<open>
  The comparison of the recorded variables with the live ones (lines 623 to 647): it returns
  \<open>vars_to_update\<close>, \<open>cons_to_remove_and_add\<close> and \<open>need_to_set_objective\<close>.
\<close>

definition vars_to_check :: "discovery \<Rightarrow> utils \<Rightarrow> ident list" where
  "vars_to_check d s =
     (if only_child_vars s \<and> update_vars (update_config s)
      then filter (\<lambda>v. v \<notin> set (new_vars d)) (current_vars_dict d)
      else if update_vars (update_config s)
      then map (\<lambda>(v_id, v_tuple). fst v_tuple)
             (filter (\<lambda>(v_id, v_tuple). v_id \<in> set (start_vars d)) (vars s))
      else [])"

fun diff_vars_loop ::
  "utils \<Rightarrow> pyomo \<Rightarrow> ident list \<Rightarrow> ident list \<times> ident list \<times> bool
     \<Rightarrow> error + ident list \<times> ident list \<times> bool" where
  "diff_vars_loop s h [] acc = Inr acc"
| "diff_vars_loop s h (v # vs) (vars_to_update, cons_to_remove_and_add, need_to_set_objective) =
     (case map_of (vars s) v of
        None \<Rightarrow> Inl (KeyError v)
      | Some (v', lb, ub, fixed, domain_interval, val) \<Rightarrow>
          if lb \<noteq> var_lb h v then
            diff_vars_loop s h vs
              (vars_to_update @ [v], cons_to_remove_and_add, need_to_set_objective)
          else if ub \<noteq> var_ub h v then
            diff_vars_loop s h vs
              (vars_to_update @ [v], cons_to_remove_and_add, need_to_set_objective)
          else if fixed \<noteq> var_fixed h v \<or> (fixed \<and> val \<noteq> var_val h v) then
            (if treat_fixed_vars_as_params (update_config s) then
               (case map_of (referenced_variables s) v of
                  None \<Rightarrow> Inl (KeyError v)
                | Some (ref_cons, ref_sos, ref_obj) \<Rightarrow>
                    diff_vars_loop s h vs
                      (vars_to_update @ [v], fold dict_add ref_cons cons_to_remove_and_add,
                       need_to_set_objective \<or> ref_obj \<noteq> None))
             else diff_vars_loop s h vs
                    (vars_to_update @ [v], cons_to_remove_and_add, need_to_set_objective))
          else if domain_interval \<noteq> var_domain h v then
            diff_vars_loop s h vs
              (vars_to_update @ [v], cons_to_remove_and_add, need_to_set_objective)
          else diff_vars_loop s h vs
                 (vars_to_update, cons_to_remove_and_add, need_to_set_objective))"

definition diff_vars ::
  "discovery \<Rightarrow> ident list \<Rightarrow> world \<Rightarrow> error + ident list \<times> ident list \<times> bool" where
  "diff_vars d cons_to_remove_and_add w =
     (if update_vars (update_config (self w))
      then diff_vars_loop (self w) (heap w) (vars_to_check d (self w))
             ([], cons_to_remove_and_add, False)
      else Inr ([], cons_to_remove_and_add, False))"

text \<open>The constraints of which a named expression has a new \<open>expr\<close> (lines 657 to 664).\<close>

definition named_expr_changed :: "pyomo \<Rightarrow> (ident \<times> expr) list \<Rightarrow> bool" where
  "named_expr_changed h expr_list =
     list_ex (\<lambda>(e, old_expr). id_of (named_expr h e) \<noteq> id_of old_expr) expr_list"

definition diff_named_expressions :: "discovery \<Rightarrow> world \<Rightarrow> error + ident list" where
  "diff_named_expressions d w =
     Inr (if update_named_expressions (update_config (self w))
          then map fst (filter (\<lambda>(c, expr_list). c \<notin> set (new_cons d)
                                   \<and> named_expr_changed (heap w) expr_list)
                          (named_expressions (self w)))
          else [])"

text \<open>
  Whether the objective has to be set again, and which (lines 667 to 684): it returns
  \<open>need_to_set_objective\<close> and \<open>pyomo_obj\<close>.
\<close>

definition check_objective :: "bool \<Rightarrow> world \<Rightarrow> error + bool \<times> ident option" where
  "check_objective need_to_set_objective w =
     (let s = self w; h = heap w; config = update_config s;
          need1 = (need_to_set_objective \<or>
                   (update_named_expressions config
                    \<and> named_expr_changed h (obj_named_expressions s)))
      in case (if check_for_new_objective config
               then (case the_model s h of
                       Inl e \<Rightarrow> Inl e
                     | Inr b \<Rightarrow>
                         (case get_objective b of
                            Inl e \<Rightarrow> Inl e
                          | Inr pyomo_obj \<Rightarrow> Inr (need1 \<or> pyomo_obj \<noteq> objective s, pyomo_obj)))
               else Inr (need1, objective s)) of
           Inl e \<Rightarrow> Inl e
         | Inr (need2, pyomo_obj) \<Rightarrow>
             Inr (if update_objective config
                  then (case pyomo_obj of
                          None \<Rightarrow> need2
                        | Some ob \<Rightarrow>
                            if \<not> same_object (Some (obj_expr h ob)) (objective_expr s) then True
                            else if Some (obj_sense h ob) \<noteq> objective_sense s then True
                            else need2)
                  else need2,
                  pyomo_obj))"

definition update :: op where
  "update =
     reading discover (\<lambda>d.
       run
         [remove_constraints (old_cons d),
          remove_sos_constraints (old_sos d),
          remove_params (old_params d),
          \<lambda>w. only_if (update_params (update_config (self w))) (backend Update_params) w,
          add_params (new_params d),
          add_variables (new_vars d),
          add_constraints (new_cons d),
          add_sos_constraints (new_sos d),
          reading (diff_constraints d) (\<lambda>cons_to_remove_and_add.
            run
              [\<lambda>w. only_if (update_constraints (update_config (self w)))
                      (run [remove_sos_constraints (sos_to_update d),
                            add_sos_constraints (sos_to_update d)]) w,
               reading (diff_vars d cons_to_remove_and_add)
                 (\<lambda>(vars_to_update, cons_to_remove_and_add, need_to_set_objective).
                    run
                      [\<lambda>w. only_if (update_vars (update_config (self w)))
                              (update_variables vars_to_update) w,
                       remove_constraints cons_to_remove_and_add,
                       add_constraints cons_to_remove_and_add,
                       reading (diff_named_expressions d) (\<lambda>cons_to_update.
                         run
                           [\<lambda>w. only_if (update_named_expressions (update_config (self w)))
                                   (run [remove_constraints cons_to_update,
                                         add_constraints cons_to_update]) w,
                            reading (check_objective need_to_set_objective)
                              (\<lambda>(need_to_set_objective, pyomo_obj).
                                 run
                                   [only_if need_to_set_objective (set_objective pyomo_obj),
                                    remove_variables (old_vars d)])])])])])"

section \<open>Notions the properties are stated with\<close>

text \<open>
  The nodes of an expression tree, the node itself first and then the nodes of its arguments
  from left to right. The argument of a named expression counts like the arguments of any
  other expression node.
\<close>

fun nodes :: "expr \<Rightarrow> expr list" where
  "nodes (NamedExpression i e) = NamedExpression i e # nodes e"
| "nodes (ExternalFunctionExpression i es) =
     ExternalFunctionExpression i es # concat (map nodes es)"
| "nodes (ExpressionNode i es) = ExpressionNode i es # concat (map nodes es)"
| "nodes e = [e]"

definition ids_where :: "(expr \<Rightarrow> bool) \<Rightarrow> expr \<Rightarrow> ident list" where
  "ids_where P e = map id_of (filter P (nodes e))"

text \<open>The collector after \<open>visiting_potential_leaf\<close> has been called on a list of nodes.\<close>

definition absorb :: "pyomo \<Rightarrow> expr list \<Rightarrow> collector \<Rightarrow> collector" where
  "absorb h ns c =
     \<lparr>named_expressions_c =
        fold dict_add (map id_of (filter is_named_expression_type ns)) (named_expressions_c c),
      variables_c = fold dict_add (map id_of (filter is_variable_type ns)) (variables_c c),
      fixed_vars_c =
        fold dict_add
          (map id_of (filter (\<lambda>n. is_variable_type n \<and> var_fixed h (id_of n)) ns))
          (fixed_vars_c c),
      external_functions_c =
        fold dict_add (map id_of (filter is_external_function_expression ns))
          (external_functions_c c)\<rparr>"

text \<open>An operation keeps a property of the world, whether it returns or raises.\<close>

definition preserves :: "(world \<Rightarrow> bool) \<Rightarrow> op \<Rightarrow> bool" where
  "preserves P f = (\<forall>w. P w \<longrightarrow> P (fst (f w)))"

text \<open>
  A variable is tracked when it has a snapshot record and a reference-count entry; its entry
  shows no reference when both dictionaries in it are empty and the objective slot is \<open>None\<close>.
\<close>

definition tracked :: "utils \<Rightarrow> ident \<Rightarrow> bool" where
  "tracked s v = (v \<in> set (keys (referenced_variables s)) \<and> v \<in> set (keys (vars s)))"

definition unreferenced :: "utils \<Rightarrow> ident \<Rightarrow> bool" where
  "unreferenced s v =
     (case map_of (referenced_variables s) v of
        None \<Rightarrow> False
      | Some (cons_using, sos_using, obj_using) \<Rightarrow>
          cons_using = [] \<and> sos_using = [] \<and> obj_using = None)"

text \<open>
  The bound comparison in the words of the specification: two bounds are unchanged when they
  are identity-equal, or when both are numeric-constant leaves with equal numeric value.
\<close>

fun numeric_leaves_equal :: "expr option \<Rightarrow> expr option \<Rightarrow> bool" where
  "numeric_leaves_equal (Some (NumericConstant i x)) (Some (NumericConstant j y)) = (x = y)"
| "numeric_leaves_equal new_bound bound = False"

definition bound_unchanged :: "expr option \<Rightarrow> expr option \<Rightarrow> bool" where
  "bound_unchanged new_bound bound =
     (same_object new_bound bound \<or> numeric_leaves_equal new_bound bound)"

text \<open>
  The backend calls of a world go on from a given list of calls; a constraint, and a
  variable, of which no registry has an entry any more.
\<close>

definition calls_extend :: "call list \<Rightarrow> world \<Rightarrow> bool" where
  "calls_extend cs w = (\<exists>rest. calls w = cs @ rest)"

definition forgotten :: "utils \<Rightarrow> ident \<Rightarrow> bool" where
  "forgotten s con =
     (con \<notin> set (keys (active_constraints s)) \<and> con \<notin> set (keys (named_expressions s)) \<and>
      con \<notin> set (keys (vars_referenced_by_con s)))"

definition var_forgotten :: "utils \<Rightarrow> ident \<Rightarrow> bool" where
  "var_forgotten s v =
     (v \<notin> set (keys (referenced_variables s)) \<and> v \<notin> set (keys (vars s)))"

text \<open>
  While the loop of \<open>add_constraints\<close> runs, the source model differs from the one at the start
  only in the fixed flags of the variables in \<open>all_fixed_vars\<close>, which were all fixed.
\<close>

definition unfixed_only :: "pyomo \<Rightarrow> ident list \<Rightarrow> pyomo \<Rightarrow> bool" where
  "unfixed_only h0 afv h =
     (h = h0\<lparr>var_fixed := (\<lambda>v. var_fixed h0 v \<and> v \<notin> set afv)\<rparr> \<and> (\<forall>v\<in>set afv. var_fixed h0 v))"

definition tables_agree :: "world \<Rightarrow> bool" where
  "tables_agree w = (set (keys (vars (self w))) = set (keys (referenced_variables (self w))))"

subsection \<open>Concrete models\<close>

text \<open>
  A source model without components (every attribute has a default), a configuration with
  every option set alike, and the world of a fresh interface object over a source model
  with a backend that never raises.
\<close>

definition blank_model :: pyomo where
  "blank_model =
     \<lparr>var_lb = (\<lambda>v. None), var_ub = (\<lambda>v. None), var_fixed = (\<lambda>v. False),
      var_domain = (\<lambda>v. (None, None, 0)), var_val = (\<lambda>v. None),
      con_lower = (\<lambda>c. None), con_body = (\<lambda>c. NativeLeaf 0), con_upper = (\<lambda>c. None),
      con_ctype = (\<lambda>c. Constraint), sos_variables = (\<lambda>c. []),
      obj_expr = (\<lambda>ob. NativeLeaf 0), obj_sense = (\<lambda>ob. minimize),
      named_expr = (\<lambda>e. NativeLeaf 0),
      blocks = (\<lambda>b. \<lparr>block_vars = [], block_mutable_params = [], block_param_data = [],
                      block_constraints = [], block_sos_constraints = [],
                      block_objectives = []\<rparr>)\<rparr>"

text \<open>
  A small source model: the variables 2 (fixed at 3), 3 and 5, the mutable parameter 8, the
  constraint 1 with the body \<open>2 + 3\<close> (node 10) and the constant lower bound 0 (node 20),
  the SOS constraint 4 over the variables 3 and 5, and the objectives 6 and 7 whose
  expression is the variable 3; the block 0 has all of them but the objective 7.
\<close>

definition small_model :: pyomo where
  "small_model =
     \<lparr>var_lb = (\<lambda>v. None), var_ub = (\<lambda>v. None), var_fixed = (\<lambda>v. v = 2),
      var_domain = (\<lambda>v. (None, None, 0)), var_val = (\<lambda>v. if v = 2 then Some 3 else None),
      con_lower = (\<lambda>c. Some (NumericConstant 20 0)),
      con_body = (\<lambda>c. ExpressionNode 10 [VarLeaf 2, VarLeaf 3]),
      con_upper = (\<lambda>c. None),
      con_ctype = (\<lambda>c. if c = 4 then SOSConstraint else Constraint),
      sos_variables = (\<lambda>c. [3, 5]),
      obj_expr = (\<lambda>ob. VarLeaf 3), obj_sense = (\<lambda>ob. minimize),
      named_expr = (\<lambda>e. NativeLeaf 0),
      blocks = (\<lambda>b. \<lparr>block_vars = [2, 3, 5], block_mutable_params = [8],
                      block_param_data = [8], block_constraints = [1],
                      block_sos_constraints = [4], block_objectives = [6]\<rparr>)\<rparr>"

definition config_all :: "bool \<Rightarrow> UpdateConfig" where
  "config_all b =
     \<lparr>check_for_new_or_removed_constraints = b, check_for_new_or_removed_vars = b,
      check_for_new_or_removed_params = b, check_for_new_objective = b,
      update_constraints = b, update_vars = b, update_params = b,
      update_named_expressions = b, update_objective = b, treat_fixed_vars_as_params = b\<rparr>"

definition start :: "UpdateConfig \<Rightarrow> pyomo \<Rightarrow> world" where
  "start config h = \<lparr>self = init config False, heap = h, calls = [], raises = (\<lambda>cs c. False)\<rparr>"

subsection \<open>Which state changes a property survives\<close>

text \<open>
  The public operations are built from a few elementary changes of the state. A property is
  kept by an operation when it is kept by the elementary changes the operation makes; the
  following predicates collect these changes: registering and forgetting a variable, recording
  and forgetting a constraint \<open>con\<close>, replacing the objective, re-fixing and unfixing
  variables, parameters and backend calls.
\<close>

definition vars_add_stable :: "(world \<Rightarrow> bool) \<Rightarrow> bool" where
  "vars_add_stable P =
     ((\<forall>v. preserves P (add_variables_body v)) \<and> (\<forall>vs. preserves P (backend (Add_variables vs))))"

definition vars_remove_stable :: "(world \<Rightarrow> bool) \<Rightarrow> bool" where
  "vars_remove_stable P =
     ((\<forall>v. preserves P (remove_variables_body v)) \<and>
      (\<forall>vs. preserves P (backend (Remove_variables vs))))"

definition add_stable :: "(world \<Rightarrow> bool) \<Rightarrow> ident \<Rightarrow> bool" where
  "add_stable P con =
     ((\<forall>x. preserves P (modify (active_constraints_update (AList.update con x)))) \<and>
      (\<forall>x. preserves P (modify (named_expressions_update (AList.update con x)))) \<and>
      (\<forall>x. preserves P (modify (external_functions_update (AList.update con x)))) \<and>
      (\<forall>x. preserves P (modify (vars_referenced_by_con_update (AList.update con x)))) \<and>
      (\<forall>v. preserves P (link_con con v)) \<and>
      (\<forall>v. preserves P (link_sos con v)))"

definition remove_stable :: "(world \<Rightarrow> bool) \<Rightarrow> ident \<Rightarrow> bool" where
  "remove_stable P con =
     ((\<forall>v. preserves P (unlink_con con v)) \<and>
      (\<forall>v. preserves P (unlink_sos con v)) \<and>
      preserves P (del_item active_constraints active_constraints_update con) \<and>
      preserves P (del_item named_expressions named_expressions_update con) \<and>
      preserves P (modify (external_functions_update (AList.delete con))) \<and>
      (\<forall>x. preserves P (modify (vars_referenced_by_con_update (AList.update con x)))) \<and>
      preserves P (del_item vars_referenced_by_con vars_referenced_by_con_update con))"

definition heap_stable :: "(world \<Rightarrow> bool) \<Rightarrow> bool" where
  "heap_stable P =
     (\<forall>v. preserves P (modify_heap (var_fix v)) \<and> preserves P (modify_heap (var_unfix v)))"

definition objective_stable :: "(world \<Rightarrow> bool) \<Rightarrow> bool" where
  "objective_stable P =
     ((\<forall>ob v. preserves P (link_obj ob v)) \<and>
      (\<forall>ob. preserves P (modify (external_functions_update (AList.delete ob)))) \<and>
      (\<forall>ob x. preserves P (modify (external_functions_update (AList.update ob x)))) \<and>
      (\<forall>a b c. preserves P (modify (\<lambda>s. s\<lparr>objective := a, objective_expr := b,
                                              objective_sense := c\<rparr>))) \<and>
      (\<forall>x. preserves P (modify (\<lambda>s. s\<lparr>obj_named_expressions := x\<rparr>))) \<and>
      (\<forall>x. preserves P (modify (\<lambda>s. s\<lparr>vars_referenced_by_obj := x\<rparr>))) \<and>
      preserves P (modify (\<lambda>s. s\<lparr>vars_referenced_by_obj := [], objective := None,
                                   objective_expr := None, objective_sense := None,
                                   obj_named_expressions := []\<rparr>)))"

definition params_stable :: "(world \<Rightarrow> bool) \<Rightarrow> bool" where
  "params_stable P = (\<forall>g. preserves P (modify (params_update g)))"

definition calls_stable :: "(world \<Rightarrow> bool) \<Rightarrow> bool" where
  "calls_stable P = (\<forall>c. preserves P (backend c))"

text \<open>A property that survives every elementary change.\<close>

definition stable :: "(world \<Rightarrow> bool) \<Rightarrow> bool" where
  "stable P =
     ((\<forall>con. add_stable P con) \<and> (\<forall>con. remove_stable P con) \<and> vars_add_stable P \<and>
      vars_remove_stable P \<and> heap_stable P \<and> objective_stable P \<and> params_stable P \<and>
      calls_stable P \<and> (\<forall>v x. preserves P (modify (vars_update (AList.update v x)))))"

subsection \<open>The public operations\<close>

datatype operation =
    Do_add_variables "ident list"
  | Do_remove_variables "ident list"
  | Do_update_variables "ident list"
  | Do_add_params "ident list"
  | Do_remove_params "ident list"
  | Do_update_params
  | Do_add_constraints "ident list"
  | Do_remove_constraints "ident list"
  | Do_add_sos_constraints "ident list"
  | Do_remove_sos_constraints "ident list"
  | Do_set_objective "ident option"
  | Do_add_block ident
  | Do_remove_block ident
  | Do_set_instance ident
  | Do_update

fun exec :: "operation \<Rightarrow> op" where
  "exec (Do_add_variables vs) = add_variables vs"
| "exec (Do_remove_variables vs) = remove_variables vs"
| "exec (Do_update_variables vs) = update_variables vs"
| "exec (Do_add_params ps) = add_params ps"
| "exec (Do_remove_params ps) = remove_params ps"
| "exec Do_update_params = backend Update_params"
| "exec (Do_add_constraints cs) = add_constraints cs"
| "exec (Do_remove_constraints cs) = remove_constraints cs"
| "exec (Do_add_sos_constraints cs) = add_sos_constraints cs"
| "exec (Do_remove_sos_constraints cs) = remove_sos_constraints cs"
| "exec (Do_set_objective obj) = set_objective obj"
| "exec (Do_add_block b) = add_block b"
| "exec (Do_remove_block b) = remove_block b"
| "exec (Do_set_instance m) = set_instance m"
| "exec Do_update = update"

text \<open>The world after \<open>set_instance\<close> on block 0 of the small model, with every option on.\<close>

definition synced :: world where
  "synced = fst (set_instance 0 (start (config_all True) small_model))"

text \<open>
  The same world after the body of constraint 1 has been replaced by a new object of the same
  structure, and after its lower bound has been replaced by a new \<open>NumericConstant\<close> with
  the value \<open>x\<close> (the recorded one has the value 0); what the pass discovers in these
  worlds.
\<close>

definition rebuilt :: world where
  "rebuilt = synced\<lparr>heap := (heap synced)\<lparr>con_body := (\<lambda>c. ExpressionNode 11 [VarLeaf 2, VarLeaf 3])\<rparr>\<rparr>"

definition rebound :: "real \<Rightarrow> world" where
  "rebound x = synced\<lparr>heap := (heap synced)\<lparr>con_lower := (\<lambda>c. Some (NumericConstant 21 x))\<rparr>\<rparr>"

definition small_discovery :: discovery where
  "small_discovery =
     \<lparr>new_vars = [], old_vars = [], new_params = [], old_params = [],
      new_cons = [], old_cons = [], new_sos = [], old_sos = [],
      current_vars_dict = [], current_cons_dict = [1],
      current_sos_dict = [4], start_vars = [2, 3, 5]\<rparr>"







text \<open>
  A constraint or SOS constraint is on record when \<open>_named_expressions\<close>, which
  \<open>add_constraints\<close> looks at, and \<open>_vars_referenced_by_con\<close>, which \<open>add_sos_constraints\<close>
  looks at, have an entry for it. An operation may take a constraint off the record when it
  is a removal of a list that has it, or removes a block, or starts afresh, or is the
  synchronization pass. The backend calls made since a given list of calls.
\<close>

definition on_record :: "utils \<Rightarrow> ident \<Rightarrow> bool" where
  "on_record s c =
     (c \<in> set (keys (named_expressions s)) \<and> c \<in> set (keys (vars_referenced_by_con s)))"

fun may_forget :: "operation \<Rightarrow> ident \<Rightarrow> bool" where
  "may_forget (Do_remove_constraints cs) c = (c \<in> set cs)"
| "may_forget (Do_remove_sos_constraints cs) c = (c \<in> set cs)"
| "may_forget (Do_remove_block b) c = True"
| "may_forget (Do_set_instance m) c = True"
| "may_forget Do_update c = True"
| "may_forget opn c = False"

definition calls_since :: "call list \<Rightarrow> world \<Rightarrow> call list" where
  "calls_since before w = drop (length before) (calls w)"

text \<open>Since a given list of calls, the backend was only asked to add variables.\<close>

definition only_adds_variables :: "call list \<Rightarrow> world \<Rightarrow> bool" where
  "only_adds_variables before w =
     (\<exists>new. calls w = before @ new \<and> (\<forall>x\<in>set new. \<exists>vs. x = Add_variables vs))"

section \<open>Properties\<close>

subsection \<open>Sequencing\<close>

lemma preservesI: "(\<And>w. P w \<Longrightarrow> P (fst (f w))) \<Longrightarrow> preserves P f"
  by (simp add: preserves_def)

lemma preservesD: "preserves P f \<Longrightarrow> P w \<Longrightarrow> P (fst (f w))"
  by (simp add: preserves_def)

lemma preserves_skip: "preserves P skip"
  by (simp add: preserves_def skip_def)

lemma preserves_raise: "preserves P (raise e)"
  by (simp add: preserves_def raise_def)

lemma preserves_modify:
  "(\<And>w. P w \<Longrightarrow> P (w\<lparr>self := g (self w)\<rparr>)) \<Longrightarrow> preserves P (modify g)"
  by (simp add: preserves_def modify_def)

lemma preserves_modify_heap:
  "(\<And>w. P w \<Longrightarrow> P (w\<lparr>heap := g (heap w)\<rparr>)) \<Longrightarrow> preserves P (modify_heap g)"
  by (simp add: preserves_def modify_heap_def)

lemma preserves_backend:
  "(\<And>w. P w \<Longrightarrow> P (w\<lparr>calls := calls w @ [c]\<rparr>)) \<Longrightarrow> preserves P (backend c)"
  by (simp add: preserves_def backend_def)

lemma preserves_run_Nil: "preserves P (run [])"
  by (simp add: preserves_def)

lemma preserves_run_Cons:
  "preserves P f \<Longrightarrow> preserves P (run fs) \<Longrightarrow> preserves P (run (f # fs))"
  unfolding preserves_def by (auto split: option.splits prod.splits)

lemma preserves_run: "(\<And>f. f \<in> set fs \<Longrightarrow> preserves P f) \<Longrightarrow> preserves P (run fs)"
  by (induction fs) (simp_all add: preserves_run_Nil preserves_run_Cons)

lemma preserves_for_each:
  "(\<And>x. x \<in> set xs \<Longrightarrow> preserves P (body x)) \<Longrightarrow> preserves P (for_each body xs)"
  unfolding for_each_def by (rule preserves_run) auto

lemma preserves_only_if: "(b \<Longrightarrow> preserves P f) \<Longrightarrow> preserves P (only_if b f)"
  by (simp add: only_if_def preserves_skip)

lemma preserves_reading: "(\<And>x. preserves P (k x)) \<Longrightarrow> preserves P (reading r k)"
  unfolding preserves_def reading_def by (auto split: sum.splits)

lemma preserves_del_item:
  "(\<And>w. P w \<Longrightarrow> P (w\<lparr>self := upd (AList.delete k) (self w)\<rparr>)) \<Longrightarrow>
   preserves P (del_item fld upd k)"
  by (simp add: preserves_def del_item_def modify_def raise_def)

lemma result_case_id [simp]:
  "(case r of (w', None) \<Rightarrow> (w', None) | (w', Some e) \<Rightarrow> (w', Some e)) = r"
  by (simp split: prod.splits option.splits)

lemma for_each_Nil [simp]: "for_each body [] w = (w, None)"
  by (simp add: for_each_def)

lemma for_each_Cons [simp]:
  "for_each body (x # xs) w =
     (case body x w of (w', None) \<Rightarrow> for_each body xs w' | (w', Some e) \<Rightarrow> (w', Some e))"
  by (simp add: for_each_def split: prod.splits option.splits)

declare run.simps [simp del]

lemma for_each_success_all:
  assumes "snd (for_each body xs w) = None"
    and "\<And>x w. x \<in> set xs \<Longrightarrow> snd (body x w) = None \<Longrightarrow> Q x (fst (body x w))"
    and "\<And>x y. x \<in> set xs \<Longrightarrow> y \<in> set xs \<Longrightarrow> preserves (Q x) (body y)"
  shows "\<forall>x\<in>set xs. Q x (fst (for_each body xs w))"
  using assms
proof (induction xs arbitrary: w)
  case Nil
  show ?case by simp
next
  case (Cons a xs)
  obtain w1 r where b: "body a w = (w1, r)" by (cases "body a w")
  with Cons.prems(1) have r: "r = None" by (cases r) auto
  have q: "Q a w1" using Cons.prems(2)[of a w] b r by simp
  have rest: "snd (for_each body xs w1) = None" using Cons.prems(1) b r by simp
  have ih: "\<forall>x\<in>set xs. Q x (fst (for_each body xs w1))"
    by (rule Cons.IH[OF rest]) (auto intro: Cons.prems)
  have "preserves (Q a) (for_each body xs)"
    by (rule preserves_for_each) (simp add: Cons.prems(3))
  then have "Q a (fst (for_each body xs w1))" using q by (rule preservesD)
  with ih show ?case by (simp add: b r)
qed

lemma for_each_error:
  "snd (for_each body xs w) = Some e \<Longrightarrow>
   \<exists>pre x post w1. xs = pre @ x # post \<and> for_each body pre w = (w1, None) \<and>
      body x w1 = (fst (for_each body xs w), Some e)"
proof (induction xs arbitrary: w)
  case Nil
  then show ?case by simp
next
  case (Cons a xs)
  obtain w1 r where b: "body a w = (w1, r)" by (cases "body a w")
  show ?case
  proof (cases r)
    case None
    with Cons.prems b have "snd (for_each body xs w1) = Some e" by simp
    from Cons.IH[OF this] obtain pre x post w2 where
      "xs = pre @ x # post" "for_each body pre w1 = (w2, None)"
      "body x w2 = (fst (for_each body xs w1), Some e)" by blast
    then have "a # xs = (a # pre) @ x # post \<and> for_each body (a # pre) w = (w2, None) \<and>
      body x w2 = (fst (for_each body (a # xs) w), Some e)"
      using b None by simp
    then show ?thesis by blast
  next
    case (Some e')
    with Cons.prems b have "a # xs = [] @ a # xs \<and> for_each body [] w = (w, None) \<and>
       body a w = (fst (for_each body (a # xs) w), Some e)" by simp
    then show ?thesis by blast
  qed
qed

subsection \<open>Dictionaries\<close>

lemma keys_update: "set (keys (AList.update k v d)) = insert k (set (keys d))"
  using AList.dom_update[of k v d] by (simp add: keys_def)

lemma keys_delete: "set (keys (AList.delete k d)) = set (keys d) - {k}"
  by (auto simp: keys_def AList.delete_eq)

lemma map_of_keys: "(map_of d k = None) = (k \<notin> set (keys d))"
  by (simp add: keys_def map_of_eq_None_iff)

lemma map_of_SomeD_keys: "map_of d k = Some v \<Longrightarrow> k \<in> set (keys d)"
  by (metis map_of_keys option.distinct(1))

lemma set_dict_add [simp]: "set (dict_add k ks) = insert k (set ks)"
  by (auto simp: dict_add_def)

lemma set_fold_dict_add [simp]: "set (fold dict_add xs acc) = set xs \<union> set acc"
  by (induction xs arbitrary: acc) auto

lemma set_dict_of_keys [simp]: "set (dict_of_keys xs) = set xs"
  by (simp add: dict_of_keys_def)

subsection \<open>The expression walker\<close>

declare dfs_postorder_stack.simps [simp del]

lemma absorb_Nil: "absorb h [] c = c"
  by (simp add: absorb_def)

lemma absorb_append: "absorb h (xs @ ys) c = absorb h ys (absorb h xs c)"
  by (simp add: absorb_def)

lemma fold_absorb:
  "(\<And>x c. x \<in> set es \<Longrightarrow> f x c = absorb h (nodes x) c) \<Longrightarrow>
   fold f es c = absorb h (concat (map nodes es)) c"
  by (induction es arbitrary: c) (simp_all add: absorb_Nil absorb_append)

text \<open>
  The traversal calls \<open>visiting_potential_leaf\<close> on every node of the tree, the nodes below a
  named expression included, in the order of \<open>nodes\<close>.
\<close>

lemma dfs_absorb: "dfs_postorder_stack h e c = absorb h (nodes e) c"
proof (induction e arbitrary: c)
  case (NamedExpression i e)
  then show ?case
    by (simp add: dfs_postorder_stack.simps[of h "NamedExpression i e"]
        visiting_potential_leaf_def absorb_def dict_add_def)
next
  case (ExternalFunctionExpression i es)
  have "fold (dfs_postorder_stack h) es c' = absorb h (concat (map nodes es)) c'" for c'
    by (rule fold_absorb) (simp add: ExternalFunctionExpression)
  then show ?case
    by (simp add: dfs_postorder_stack.simps[of h "ExternalFunctionExpression i es"]
        visiting_potential_leaf_def absorb_def dict_add_def)
next
  case (ExpressionNode i es)
  have "fold (dfs_postorder_stack h) es c' = absorb h (concat (map nodes es)) c'" for c'
    by (rule fold_absorb) (simp add: ExpressionNode)
  then show ?case
    by (simp add: dfs_postorder_stack.simps[of h "ExpressionNode i es"]
        visiting_potential_leaf_def absorb_def dict_add_def)
qed (simp_all add: dfs_postorder_stack.simps visiting_potential_leaf_def absorb_def dict_add_def)

lemma collect_vars_and_named_exprs_eq:
  "collect_vars_and_named_exprs h e =
     (dict_of_keys (ids_where is_named_expression_type e),
      dict_of_keys (ids_where is_variable_type e),
      dict_of_keys (ids_where (\<lambda>n. is_variable_type n \<and> var_fixed h (id_of n)) e),
      dict_of_keys (ids_where is_external_function_expression e))"
  by (simp add: collect_vars_and_named_exprs_def dfs_absorb absorb_def collector_init_def
      dict_of_keys_def ids_where_def)

lemma nodes_trans: "n \<in> set (nodes e) \<Longrightarrow> m \<in> set (nodes n) \<Longrightarrow> m \<in> set (nodes e)"
  by (induction e) auto

lemma nodes_self: "e \<in> set (nodes e)"
  by (cases e) auto

text \<open>
  The flag of \<open>visiting_potential_leaf\<close> is the same for a named expression as for any other
  expression node: a driver that follows the flag cannot stop at the one and go on at the other.
\<close>

lemma named_expression_flag:
  "fst (visiting_potential_leaf h (NamedExpression i e) c) =
   fst (visiting_potential_leaf h (ExpressionNode j es) c)"
  by (simp add: visiting_potential_leaf_def)

text \<open>
  C8 (amended). The walker records each named sub-expression node it meets and goes on into
  it as into any other expression node: for a named sub-expression among the nodes of the tree,
  every variable, every fixed variable and every external-function call below it is in the
  collections that \<open>collect_vars_and_named_exprs\<close> returns.
\<close>

theorem walker_descends_into_named_expressions:
  assumes "NamedExpression i e' \<in> set (nodes e)"
    and "n \<in> set (nodes e')"
    and "collect_vars_and_named_exprs h e = (named_exprs, variables, fixed_vars, ext_functions)"
  shows "i \<in> set named_exprs \<and>
         (is_variable_type n \<longrightarrow> id_of n \<in> set variables) \<and>
         (is_variable_type n \<and> var_fixed h (id_of n) \<longrightarrow> id_of n \<in> set fixed_vars) \<and>
         (is_external_function_expression n \<longrightarrow> id_of n \<in> set ext_functions)"
proof -
  have "n \<in> set (nodes (NamedExpression i e'))" using assms(2) by simp
  then have n: "n \<in> set (nodes e)" using assms(1) by (rule nodes_trans[rotated])
  show ?thesis
    using assms(1,3) n unfolding collect_vars_and_named_exprs_eq
    by (force simp: ids_where_def)
qed

theorem walker_descends_into_named_expressions_witness:
  "NamedExpression 1 (ExpressionNode 3 [VarLeaf 2, ExternalFunctionExpression 4 [VarLeaf 5]])
     \<in> set (nodes (ExpressionNode 6 [NamedExpression 1
          (ExpressionNode 3 [VarLeaf 2, ExternalFunctionExpression 4 [VarLeaf 5]])])) \<and>
   VarLeaf 5 \<in> set (nodes (ExpressionNode 3 [VarLeaf 2, ExternalFunctionExpression 4 [VarLeaf 5]])) \<and>
   collect_vars_and_named_exprs (var_fix 5 blank_model)
     (ExpressionNode 6 [NamedExpression 1
        (ExpressionNode 3 [VarLeaf 2, ExternalFunctionExpression 4 [VarLeaf 5]])])
     = ([1], [2, 5], [5], [4]) \<and>
   1 \<in> set [1::nat] \<and> id_of (VarLeaf 5) \<in> set [2, 5::nat] \<and> id_of (VarLeaf 5) \<in> set [5::nat]"
proof -
  let ?e' = "ExpressionNode 3 [VarLeaf 2, ExternalFunctionExpression 4 [VarLeaf 5]]"
  let ?e = "ExpressionNode 6 [NamedExpression 1 ?e']"
  have a: "NamedExpression 1 ?e' \<in> set (nodes ?e)" by simp
  have b: "VarLeaf 5 \<in> set (nodes ?e')" by simp
  have c: "collect_vars_and_named_exprs (var_fix 5 blank_model) ?e = ([1], [2, 5], [5], [4])"
    by (simp add: collect_vars_and_named_exprs_eq ids_where_def dict_of_keys_def dict_add_def
        var_fix_def blank_model_def)
  show ?thesis
    using walker_descends_into_named_expressions[OF a b c] a b c by simp
qed

text \<open>
  C8 as stated fails: the variables 2 and 5 and the external-function call 4 occur only inside
  the named expression 1, and the walker returns them.
\<close>

theorem walker_stops_at_named_expressions_counterexample:
  "collect_vars_and_named_exprs (var_fix 5 blank_model)
     (NamedExpression 1 (ExpressionNode 3 [VarLeaf 2, ExternalFunctionExpression 4 [VarLeaf 5]]))
   = ([1], [2, 5], [5], [4])"
  by (simp add: collect_vars_and_named_exprs_eq ids_where_def dict_of_keys_def dict_add_def
      var_fix_def blank_model_def)

subsection \<open>Removing variables\<close>

lemma remove_variables_body_unreferenced:
  "tracked (self w) v \<Longrightarrow> unreferenced (self w) v \<Longrightarrow>
   remove_variables_body v w =
     (w\<lparr>self := (self w)\<lparr>referenced_variables := AList.delete v (referenced_variables (self w)),
                          vars := AList.delete v (vars (self w))\<rparr>\<rparr>, None)"
  by (auto simp: remove_variables_body_def run.simps unreferenced_def tracked_def del_item_def modify_def
      raise_def keys_delete split: option.splits)

lemma remove_variables_body_referenced:
  "tracked (self w) v \<Longrightarrow> \<not> unreferenced (self w) v \<Longrightarrow>
   remove_variables_body v w = (w, Some (ValueError (VarStillUsed v)))"
  by (auto simp: remove_variables_body_def run.simps unreferenced_def tracked_def raise_def map_of_keys
      split: option.splits)

lemma remove_variables_loop:
  "distinct vs \<Longrightarrow> \<forall>v\<in>set vs. tracked (self w) v \<Longrightarrow>
   (snd (for_each remove_variables_body vs w) = None \<longleftrightarrow>
      (\<forall>v\<in>set vs. unreferenced (self w) v)) \<and>
   (snd (for_each remove_variables_body vs w) \<noteq> None \<longrightarrow>
      (\<exists>v\<in>set vs. \<not> unreferenced (self w) v \<and>
         snd (for_each remove_variables_body vs w) = Some (ValueError (VarStillUsed v))))"
proof (induction vs arbitrary: w)
  case Nil
  show ?case by simp
next
  case (Cons v vs)
  have tv: "tracked (self w) v" using Cons.prems by simp
  show ?case
  proof (cases "unreferenced (self w) v")
    case False
    then show ?thesis
      using remove_variables_body_referenced[OF tv False] by simp
  next
    case True
    let ?w' = "w\<lparr>self := (self w)\<lparr>referenced_variables :=
                   AList.delete v (referenced_variables (self w)),
                 vars := AList.delete v (vars (self w))\<rparr>\<rparr>"
    have step: "remove_variables_body v w = (?w', None)"
      by (rule remove_variables_body_unreferenced[OF tv True])
    have tr: "\<forall>u\<in>set vs. tracked (self ?w') u"
      using Cons.prems by (auto simp: tracked_def keys_delete)
    have un: "\<forall>u\<in>set vs. unreferenced (self ?w') u = unreferenced (self w) u"
      using Cons.prems(1) by (auto simp: unreferenced_def AList.delete_conv')
    have d: "distinct vs" using Cons.prems by simp
    note ih = Cons.IH[OF d tr]
    have A: "(\<forall>x\<in>set vs. unreferenced (self ?w') x) = (\<forall>x\<in>set vs. unreferenced (self w) x)"
      using un by auto
    have B: "\<exists>u\<in>set vs. \<not> unreferenced (self w) u \<and> R u"
      if "\<exists>u\<in>set vs. \<not> unreferenced (self ?w') u \<and> R u" for R
      using that un by auto
    show ?thesis
      using ih True A
        B[of "\<lambda>u. snd (for_each remove_variables_body vs ?w') = Some (ValueError (VarStillUsed u))"]
      by (simp add: step) blast
  qed
qed

lemma untracked_after_body:
  "snd (remove_variables_body v w) = None \<Longrightarrow>
   \<not> tracked (self (fst (remove_variables_body v w))) v"
  by (auto simp: remove_variables_body_def run.simps tracked_def del_item_def modify_def raise_def
      keys_delete split: option.splits if_splits)

lemma untracked_preserved:
  "preserves (\<lambda>w. \<not> tracked (self w) v) (remove_variables_body u)"
  by (auto simp: preserves_def remove_variables_body_def run.simps tracked_def del_item_def modify_def
      raise_def keys_delete split: option.splits if_splits)

text \<open>
  C3. When the backend's \<open>_remove_variables\<close> returns, \<open>remove_variables\<close> on tracked
  variables (each listed once) succeeds if and only if the reference-count entry of every one
  of them shows no constraint, no SOS constraint and no objective at the moment of the call,
  and then their records are gone; otherwise it raises the still-being-used \<open>ValueError\<close> for a
  variable of the list whose entry shows a reference.
\<close>

theorem remove_variables_iff_unreferenced:
  assumes "\<not> raises w (calls w) (Remove_variables variables)"
    and "distinct variables"
    and "\<forall>v\<in>set variables. tracked (self w) v"
  shows "(snd (remove_variables variables w) = None \<longleftrightarrow>
            (\<forall>v\<in>set variables. unreferenced (self w) v)) \<and>
         (snd (remove_variables variables w) = None \<longrightarrow>
            (\<forall>v\<in>set variables. \<not> tracked (self (fst (remove_variables variables w))) v)) \<and>
         (snd (remove_variables variables w) \<noteq> None \<longrightarrow>
            (\<exists>v\<in>set variables. \<not> unreferenced (self w) v \<and>
               snd (remove_variables variables w) = Some (ValueError (VarStillUsed v))))"
proof -
  let ?w = "w\<lparr>calls := calls w @ [Remove_variables variables]\<rparr>"
  have eq: "remove_variables variables w = for_each remove_variables_body variables ?w"
    using assms(1) by (simp add: remove_variables_def backend_def run.simps)
  have tr: "\<forall>v\<in>set variables. tracked (self ?w) v" using assms(3) by simp
  have gone: "snd (for_each remove_variables_body variables ?w) = None \<Longrightarrow>
     \<forall>v\<in>set variables. \<not> tracked (self (fst (for_each remove_variables_body variables ?w))) v"
    using for_each_success_all[where Q="\<lambda>x w. \<not> tracked (self w) x"
        and body=remove_variables_body and xs=variables and w="?w"]
      untracked_after_body untracked_preserved
    by blast
  have sw: "self ?w = self w" by simp
  have L: "(snd (for_each remove_variables_body variables ?w) = None \<longleftrightarrow>
            (\<forall>v\<in>set variables. unreferenced (self w) v)) \<and>
         (snd (for_each remove_variables_body variables ?w) \<noteq> None \<longrightarrow>
            (\<exists>v\<in>set variables. \<not> unreferenced (self w) v \<and>
               snd (for_each remove_variables_body variables ?w) =
                 Some (ValueError (VarStillUsed v))))"
    using remove_variables_loop[OF assms(2) tr, unfolded sw] by blast
  show ?thesis
    unfolding eq using L gone by blast
qed

lemmas exec_defs =
  run.simps add_variables_def add_variables_body_def modify_def modify_heap_def backend_def start_def
  init_def keys_def snapshot_def blank_model_def config_all_def raise_def skip_def only_if_def
  reading_def remove_variables_def remove_variables_body_def del_item_def tracked_def
  unreferenced_def dict_add_def dict_of_keys_def

theorem remove_variables_iff_unreferenced_witness:
  "\<not> raises (fst (add_variables [1, 2] (start (config_all True) blank_model)))
       (calls (fst (add_variables [1, 2] (start (config_all True) blank_model))))
       (Remove_variables [1, 2]) \<and>
   distinct [1, 2 :: nat] \<and>
   tracked (self (fst (add_variables [1, 2] (start (config_all True) blank_model)))) 1 \<and>
   tracked (self (fst (add_variables [1, 2] (start (config_all True) blank_model)))) 2 \<and>
   unreferenced (self (fst (add_variables [1, 2] (start (config_all True) blank_model)))) 1 \<and>
   unreferenced (self (fst (add_variables [1, 2] (start (config_all True) blank_model)))) 2 \<and>
   snd (remove_variables [1, 2]
          (fst (add_variables [1, 2] (start (config_all True) blank_model)))) = None \<and>
   \<not> tracked (self (fst (remove_variables [1, 2]
          (fst (add_variables [1, 2] (start (config_all True) blank_model)))))) 1"
proof -
  define w where "w = fst (add_variables [1, 2] (start (config_all True) blank_model))"
  have a: "\<not> raises w (calls w) (Remove_variables [1, 2])"
    by (simp add: w_def exec_defs)
  have b: "distinct [1, 2 :: nat]" by simp
  have t: "tracked (self w) 1" "tracked (self w) 2"
    by (simp_all add: w_def exec_defs)
  then have c: "\<forall>v\<in>set [1, 2]. tracked (self w) v" by simp
  have u: "unreferenced (self w) 1" "unreferenced (self w) 2"
    by (simp_all add: w_def exec_defs)
  from remove_variables_iff_unreferenced[OF a b c] u
  have "snd (remove_variables [1, 2] w) = None \<and>
        \<not> tracked (self (fst (remove_variables [1, 2] w))) 1"
    by simp
  with a b t u show ?thesis unfolding w_def by simp
qed

subsection \<open>What the operations keep\<close>

lemmas prim_defs =
  preserves_def link_con_def link_sos_def link_obj_def unlink_con_def unlink_sos_def modify_def
  raise_def skip_def del_item_def backend_def modify_heap_def run.simps add_variables_body_def
  remove_variables_body_def var_fix_def var_unfix_def

lemmas stable_defs =
  vars_add_stable_def vars_remove_stable_def add_stable_def remove_stable_def heap_stable_def
  objective_stable_def params_stable_def calls_stable_def

lemma preserves_reading_strong:
  "(\<And>x w. r w = Inr x \<Longrightarrow> P w \<Longrightarrow> P (fst (k x w))) \<Longrightarrow> preserves P (reading r k)"
  unfolding preserves_def reading_def by (auto split: sum.splits)

lemma calls_stableD: "calls_stable P \<Longrightarrow> preserves P (backend c)"
  by (simp add: calls_stable_def)

lemma calls_stable_vars_add:
  "calls_stable P \<Longrightarrow> (\<And>v. preserves P (add_variables_body v)) \<Longrightarrow> vars_add_stable P"
  by (simp add: vars_add_stable_def calls_stable_def)

lemma calls_stable_vars_remove:
  "calls_stable P \<Longrightarrow> (\<And>v. preserves P (remove_variables_body v)) \<Longrightarrow> vars_remove_stable P"
  by (simp add: vars_remove_stable_def calls_stable_def)

lemma preserves_add_variables: "vars_add_stable P \<Longrightarrow> preserves P (add_variables vs)"
  unfolding add_variables_def vars_add_stable_def
  by (intro preserves_run_Cons preserves_run_Nil preserves_for_each) simp_all

lemma preserves_check_for_new_vars:
  "vars_add_stable P \<Longrightarrow> preserves P (check_for_new_vars vs)"
  unfolding check_for_new_vars_def
  by (rule preservesI) (erule preservesD[OF preserves_add_variables])

lemma preserves_remove_variables: "vars_remove_stable P \<Longrightarrow> preserves P (remove_variables vs)"
  unfolding remove_variables_def vars_remove_stable_def
  by (intro preserves_run_Cons preserves_run_Nil preserves_for_each) simp_all

lemma preserves_check_to_remove_vars:
  "vars_remove_stable P \<Longrightarrow> preserves P (check_to_remove_vars vs)"
  unfolding check_to_remove_vars_def
  by (intro preserves_reading preserves_remove_variables)

lemma preserves_drain:
  assumes "\<And>x. preserves P (modify (vars_referenced_by_con_update (AList.update con x)))"
    and "\<And>v. preserves P (body v)"
  shows "preserves P (drain con body vs)"
proof (induction vs)
  case Nil
  show ?case by (simp add: preserves_skip)
next
  case (Cons v vs)
  show ?case
    by (simp del: run.simps)
      (intro preserves_run_Cons preserves_run_Nil assms Cons)
qed

lemma preserves_walk:
  assumes "\<And>x. preserves P (modify (vars_referenced_by_con_update (AList.update con x)))"
    and "\<And>v. preserves P (body v)"
  shows "preserves P (walk con variables body)"
  by (cases variables) (simp_all add: preserves_for_each preserves_drain assms)

lemma preserves_check_to_remove_vars_of:
  assumes "\<And>x. preserves P (modify (vars_referenced_by_con_update (AList.update con x)))"
    and "\<And>vs. preserves P (check_to_remove_vars vs)"
  shows "preserves P (check_to_remove_vars_of con)"
proof (rule preservesI)
  fix w assume p: "P w"
  have "preserves P (run [modify (vars_referenced_by_con_update (AList.update con x)),
                          check_to_remove_vars vs])" for x vs
    by (intro preserves_run_Cons preserves_run_Nil assms)
  from preservesD[OF this p] preservesD[OF assms(2) p] p
  show "P (fst (check_to_remove_vars_of con w))"
    by (auto simp: check_to_remove_vars_of_def raise_def split: option.splits iterable.splits)
qed

lemma preserves_add_params:
  "params_stable P \<Longrightarrow> calls_stable P \<Longrightarrow> preserves P (add_params ps)"
  unfolding add_params_def params_stable_def calls_stable_def
  by (intro preserves_run_Cons preserves_run_Nil preserves_for_each) simp_all

lemma preserves_remove_params:
  "params_stable P \<Longrightarrow> calls_stable P \<Longrightarrow> preserves P (remove_params ps)"
  unfolding remove_params_def params_stable_def calls_stable_def
  apply (intro preserves_run_Cons preserves_run_Nil preserves_for_each)
    apply simp
   apply (rule preservesI)
   apply (auto simp: raise_def dest: preservesD)
  done

lemma add_constraints_body_keeps:
  assumes "add_stable P con"
    and "\<And>vs. preserves P (check_for_new_vars vs)"
    and "\<And>v. preserves P (modify_heap (var_unfix v))"
    and "P w"
  shows "P (fst (add_constraints_body con afv w))"
proof (cases "con \<in> set (keys (named_expressions (self w)))")
  case True
  then show ?thesis using assms(4) by (simp add: add_constraints_body_def)
next
  case False
  obtain ne vs fv ef where
    c: "collect_vars_and_named_exprs (heap w) (con_body (heap w) con) = (ne, vs, fv, ef)"
    by (cases "collect_vars_and_named_exprs (heap w) (con_body (heap w) con)") auto
  let ?ops = "[modify (active_constraints_update
                 (AList.update con (Some (con_lower (heap w) con, con_body (heap w) con,
                                          con_upper (heap w) con)))),
               only_if (\<not> only_child_vars (self w)) (check_for_new_vars vs),
               modify (named_expressions_update
                 (AList.update con (map (\<lambda>e. (e, named_expr (heap w) e)) ne))),
               only_if (ef \<noteq> [])
                 (modify (external_functions_update (AList.update con ef))),
               modify (vars_referenced_by_con_update (AList.update con (List_of vs))),
               for_each (link_con con) vs,
               only_if (\<not> treat_fixed_vars_as_params (update_config (self w)))
                 (for_each (\<lambda>v. modify_heap (var_unfix v)) fv)]"
  have "preserves P (run ?ops)"
    using assms(1,2,3) unfolding add_stable_def
    by (intro preserves_run_Cons preserves_run_Nil preserves_for_each preserves_only_if) simp_all
  then have "P (fst (run ?ops w))" using assms(4) by (rule preservesD)
  moreover have "fst (add_constraints_body con afv w) = fst (run ?ops w)"
  proof (cases "run ?ops w")
    case (Pair w' r)
    then show ?thesis
      using False c by (cases r) (simp_all add: add_constraints_body_def Let_def)
  qed
  ultimately show ?thesis by simp
qed

lemma add_constraints_loop_keeps:
  assumes "\<And>con. con \<in> set cons \<Longrightarrow> add_stable P con"
    and "\<And>vs. preserves P (check_for_new_vars vs)"
    and "\<And>v. preserves P (modify_heap (var_unfix v))"
    and "P w"
  shows "P (fst (add_constraints_loop cons afv w))"
  using assms
proof (induction cons arbitrary: afv w)
  case Nil
  then show ?case by simp
next
  case (Cons con cons)
  have b: "P (fst (add_constraints_body con afv w))"
    by (rule add_constraints_body_keeps) (simp_all add: Cons.prems)
  show ?case
  proof (cases "add_constraints_body con afv w")
    case (Pair w' r)
    show ?thesis
    proof (cases r)
      case (Inl e)
      then show ?thesis using b Pair by simp
    next
      case (Inr afv')
      have "P (fst (add_constraints_loop cons afv' w'))"
        by (rule Cons.IH) (use b Pair Cons.prems in simp_all)
      then show ?thesis using Pair Inr by simp
    qed
  qed
qed

lemma preserves_add_constraints:
  assumes "\<And>con. con \<in> set cons \<Longrightarrow> add_stable P con"
    and "\<And>vs. preserves P (check_for_new_vars vs)"
    and "heap_stable P"
    and "preserves P (backend (Add_constraints cons))"
  shows "preserves P (add_constraints cons)"
proof (rule preservesI)
  fix w assume "P w"
  have l: "P (fst (add_constraints_loop cons [] w))"
    by (rule add_constraints_loop_keeps) (use assms \<open>P w\<close> in \<open>simp_all add: heap_stable_def\<close>)
  show "P (fst (add_constraints cons w))"
  proof (cases "add_constraints_loop cons [] w")
    case (Pair w' r)
    show ?thesis
    proof (cases r)
      case (Inl e)
      then show ?thesis using l Pair by (simp add: add_constraints_def)
    next
      case (Inr afv)
      have "preserves P (run [backend (Add_constraints cons),
                               for_each (\<lambda>v. modify_heap (var_fix v)) afv])"
        using assms(3,4) unfolding heap_stable_def
        by (intro preserves_run_Cons preserves_run_Nil preserves_for_each) simp_all
      then show ?thesis
        using l Pair Inr by (auto simp: add_constraints_def dest: preservesD)
    qed
  qed
qed

lemma preserves_add_sos_constraints_body:
  assumes "add_stable P con" and "\<And>vs. preserves P (check_for_new_vars vs)"
  shows "preserves P (add_sos_constraints_body con)"
proof (rule preservesI)
  fix w assume p: "P w"
  let ?vs = "sos_variables (heap w) con"
  let ?ny = "if only_child_vars (self w) then ?vs else []"
  let ?ops = "[modify (active_constraints_update (AList.update con None)),
               only_if (\<not> only_child_vars (self w)) (check_for_new_vars ?vs),
               modify (named_expressions_update (AList.update con [])),
               modify (vars_referenced_by_con_update (AList.update con (Generator ?ny))),
               drain con (link_sos con) ?ny]"
  have "preserves P (run ?ops)"
    using assms unfolding add_stable_def
    by (intro preserves_run_Cons preserves_run_Nil preserves_drain preserves_only_if) simp_all
  then have "P (fst (run ?ops w))" using p by (rule preservesD)
  then show "P (fst (add_sos_constraints_body con w))"
    using p by (simp add: add_sos_constraints_body_def raise_def Let_def)
qed

lemma preserves_add_sos_constraints:
  assumes "\<And>con. con \<in> set cons \<Longrightarrow> add_stable P con"
    and "\<And>vs. preserves P (check_for_new_vars vs)"
    and "preserves P (backend (Add_sos_constraints cons))"
  shows "preserves P (add_sos_constraints cons)"
  unfolding add_sos_constraints_def
  by (intro preserves_run_Cons preserves_run_Nil preserves_for_each
      preserves_add_sos_constraints_body assms)

lemma preserves_remove_constraints_body:
  assumes "remove_stable P con" and "\<And>vs. preserves P (check_to_remove_vars vs)"
  shows "preserves P (remove_constraints_body con)"
proof (rule preservesI)
  fix w assume p: "P w"
  show "P (fst (remove_constraints_body con w))"
  proof (cases "map_of (vars_referenced_by_con (self w)) con")
    case None
    then show ?thesis using p by (simp add: remove_constraints_body_def raise_def)
  next
    case (Some vs)
    let ?ops = "[walk con vs (unlink_con con),
                 only_if (\<not> only_child_vars (self w)) (check_to_remove_vars_of con),
                 del_item active_constraints active_constraints_update con,
                 del_item named_expressions named_expressions_update con,
                 modify (external_functions_update (AList.delete con)),
                 del_item vars_referenced_by_con vars_referenced_by_con_update con]"
    have "preserves P (run ?ops)"
      using assms unfolding remove_stable_def
      by (intro preserves_run_Cons preserves_run_Nil preserves_walk preserves_only_if
          preserves_check_to_remove_vars_of)
        simp_all
    then have "P (fst (run ?ops w))" using p by (rule preservesD)
    then show ?thesis using p Some by (simp add: remove_constraints_body_def raise_def)
  qed
qed

lemma preserves_remove_constraints:
  assumes "\<And>con. con \<in> set cons \<Longrightarrow> remove_stable P con"
    and "\<And>vs. preserves P (check_to_remove_vars vs)"
    and "preserves P (backend (Remove_constraints cons))"
  shows "preserves P (remove_constraints cons)"
  unfolding remove_constraints_def
  by (intro preserves_run_Cons preserves_run_Nil preserves_for_each
      preserves_remove_constraints_body assms)

lemma preserves_remove_sos_constraints_body:
  assumes "remove_stable P con" and "\<And>vs. preserves P (check_to_remove_vars vs)"
  shows "preserves P (remove_sos_constraints_body con)"
proof (rule preservesI)
  fix w assume p: "P w"
  show "P (fst (remove_sos_constraints_body con w))"
  proof (cases "map_of (vars_referenced_by_con (self w)) con")
    case None
    then show ?thesis using p by (simp add: remove_sos_constraints_body_def raise_def)
  next
    case (Some vs)
    let ?ops = "[walk con vs (unlink_sos con),
                 check_to_remove_vars_of con,
                 del_item active_constraints active_constraints_update con,
                 del_item named_expressions named_expressions_update con,
                 del_item vars_referenced_by_con vars_referenced_by_con_update con]"
    have "preserves P (run ?ops)"
      using assms unfolding remove_stable_def
      by (intro preserves_run_Cons preserves_run_Nil preserves_walk
          preserves_check_to_remove_vars_of)
        simp_all
    then have "P (fst (run ?ops w))" using p by (rule preservesD)
    then show ?thesis using p Some by (simp add: remove_sos_constraints_body_def)
  qed
qed

lemma preserves_remove_sos_constraints:
  assumes "\<And>con. con \<in> set cons \<Longrightarrow> remove_stable P con"
    and "\<And>vs. preserves P (check_to_remove_vars vs)"
    and "preserves P (backend (Remove_sos_constraints cons))"
  shows "preserves P (remove_sos_constraints cons)"
  unfolding remove_sos_constraints_def
  by (intro preserves_run_Cons preserves_run_Nil preserves_for_each
      preserves_remove_sos_constraints_body assms)

lemma preserves_set_objective_guarded:
  assumes "objective_stable P"
    and "\<And>vs w. P w \<Longrightarrow> \<not> only_child_vars (self w) \<Longrightarrow> preserves P (check_for_new_vars vs)"
    and "\<And>vs w. P w \<Longrightarrow> \<not> only_child_vars (self w) \<Longrightarrow> preserves P (check_to_remove_vars vs)"
    and "heap_stable P"
    and "preserves P (backend (Set_objective obj))"
  shows "preserves P (set_objective obj)"
proof -
  have retire: "preserves P (\<lambda>w. case objective (self w) of
               None \<Rightarrow> skip w
             | Some old \<Rightarrow>
                 run [for_each (link_obj None) (vars_referenced_by_obj (self w)),
                      only_if (\<not> only_child_vars (self w))
                        (check_to_remove_vars (vars_referenced_by_obj (self w))),
                      modify (external_functions_update (AList.delete old))] w)"
  proof (rule preservesI)
    fix w assume p: "P w"
    have "preserves P (run [for_each (link_obj None) (vars_referenced_by_obj (self w)),
                      only_if (\<not> only_child_vars (self w))
                        (check_to_remove_vars (vars_referenced_by_obj (self w))),
                      modify (external_functions_update (AList.delete old))])" for old
      using assms(1) assms(3)[OF p] unfolding objective_stable_def
      by (intro preserves_run_Cons preserves_run_Nil preserves_for_each preserves_only_if)
        simp_all
    then show "P (fst (case objective (self w) of
               None \<Rightarrow> skip w
             | Some old \<Rightarrow>
                 run [for_each (link_obj None) (vars_referenced_by_obj (self w)),
                      only_if (\<not> only_child_vars (self w))
                        (check_to_remove_vars (vars_referenced_by_obj (self w))),
                      modify (external_functions_update (AList.delete old))] w))"
      using p by (auto simp: skip_def split: option.splits dest: preservesD)
  qed
  have install: "preserves P (\<lambda>w. case obj of
               Some ob \<Rightarrow>
                 (let h = heap w;
                      (named_exprs, variables, fixed_vars, ext_functions) =
                         collect_vars_and_named_exprs h (obj_expr h ob)
                  in run
                       [modify (\<lambda>s. s\<lparr>objective := Some ob,
                                       objective_expr := Some (obj_expr h ob),
                                       objective_sense := Some (obj_sense h ob)\<rparr>),
                        only_if (\<not> only_child_vars (self w)) (check_for_new_vars variables),
                        modify (\<lambda>s. s\<lparr>obj_named_expressions :=
                                         map (\<lambda>i. (i, named_expr h i)) named_exprs\<rparr>),
                        only_if (ext_functions \<noteq> [])
                          (modify (external_functions_update (AList.update ob ext_functions))),
                        modify (\<lambda>s. s\<lparr>vars_referenced_by_obj := variables\<rparr>),
                        for_each (link_obj (Some ob)) variables,
                        only_if (\<not> treat_fixed_vars_as_params (update_config (self w)))
                          (for_each (\<lambda>v. modify_heap (var_unfix v)) fixed_vars),
                        backend (Set_objective (Some ob)),
                        for_each (\<lambda>v. modify_heap (var_fix v)) fixed_vars] w)
             | None \<Rightarrow>
                 run [modify (\<lambda>s. s\<lparr>vars_referenced_by_obj := [],
                                      objective := None,
                                      objective_expr := None,
                                      objective_sense := None,
                                      obj_named_expressions := []\<rparr>),
                      backend (Set_objective None)] w)"
  proof (rule preservesI)
    fix w assume p: "P w"
    show "P (fst (case obj of
               Some ob \<Rightarrow>
                 (let h = heap w;
                      (named_exprs, variables, fixed_vars, ext_functions) =
                         collect_vars_and_named_exprs h (obj_expr h ob)
                  in run
                       [modify (\<lambda>s. s\<lparr>objective := Some ob,
                                       objective_expr := Some (obj_expr h ob),
                                       objective_sense := Some (obj_sense h ob)\<rparr>),
                        only_if (\<not> only_child_vars (self w)) (check_for_new_vars variables),
                        modify (\<lambda>s. s\<lparr>obj_named_expressions :=
                                         map (\<lambda>i. (i, named_expr h i)) named_exprs\<rparr>),
                        only_if (ext_functions \<noteq> [])
                          (modify (external_functions_update (AList.update ob ext_functions))),
                        modify (\<lambda>s. s\<lparr>vars_referenced_by_obj := variables\<rparr>),
                        for_each (link_obj (Some ob)) variables,
                        only_if (\<not> treat_fixed_vars_as_params (update_config (self w)))
                          (for_each (\<lambda>v. modify_heap (var_unfix v)) fixed_vars),
                        backend (Set_objective (Some ob)),
                        for_each (\<lambda>v. modify_heap (var_fix v)) fixed_vars] w)
             | None \<Rightarrow>
                 run [modify (\<lambda>s. s\<lparr>vars_referenced_by_obj := [],
                                      objective := None,
                                      objective_expr := None,
                                      objective_sense := None,
                                      obj_named_expressions := []\<rparr>),
                      backend (Set_objective None)] w))"
    proof (cases obj)
      case None
      have "preserves P (run [modify (\<lambda>s. s\<lparr>vars_referenced_by_obj := [],
                                      objective := None,
                                      objective_expr := None,
                                      objective_sense := None,
                                      obj_named_expressions := []\<rparr>),
                      backend (Set_objective None)])"
        using assms(1,5) None unfolding objective_stable_def
        by (intro preserves_run_Cons preserves_run_Nil) simp_all
      then show ?thesis using p None by (auto dest: preservesD)
    next
      case (Some ob)
      obtain ne vs fv ef where
        c: "collect_vars_and_named_exprs (heap w) (obj_expr (heap w) ob) = (ne, vs, fv, ef)"
        by (cases "collect_vars_and_named_exprs (heap w) (obj_expr (heap w) ob)") auto
      have "preserves P (run
                       [modify (\<lambda>s. s\<lparr>objective := Some ob,
                                       objective_expr := Some (obj_expr (heap w) ob),
                                       objective_sense := Some (obj_sense (heap w) ob)\<rparr>),
                        only_if (\<not> only_child_vars (self w)) (check_for_new_vars vs),
                        modify (\<lambda>s. s\<lparr>obj_named_expressions :=
                                         map (\<lambda>i. (i, named_expr (heap w) i)) ne\<rparr>),
                        only_if (ef \<noteq> [])
                          (modify (external_functions_update (AList.update ob ef))),
                        modify (\<lambda>s. s\<lparr>vars_referenced_by_obj := vs\<rparr>),
                        for_each (link_obj (Some ob)) vs,
                        only_if (\<not> treat_fixed_vars_as_params (update_config (self w)))
                          (for_each (\<lambda>v. modify_heap (var_unfix v)) fv),
                        backend (Set_objective (Some ob)),
                        for_each (\<lambda>v. modify_heap (var_fix v)) fv])"
        using assms(1) assms(2)[OF p] assms(4,5) Some
        unfolding objective_stable_def heap_stable_def
        by (intro preserves_run_Cons preserves_run_Nil preserves_for_each preserves_only_if)
          simp_all
      then show ?thesis using p Some c by (auto simp: Let_def dest: preservesD)
    qed
  qed
  show ?thesis
    unfolding set_objective_def
    by (intro preserves_run_Cons preserves_run_Nil retire install)
qed

lemma preserves_set_objective:
  assumes "objective_stable P"
    and "\<And>vs. preserves P (check_for_new_vars vs)"
    and "\<And>vs. preserves P (check_to_remove_vars vs)"
    and "heap_stable P"
    and "preserves P (backend (Set_objective obj))"
  shows "preserves P (set_objective obj)"
  by (rule preserves_set_objective_guarded) (use assms in auto)

lemma preserves_only_if_world: "preserves P g \<Longrightarrow> preserves P (\<lambda>w. only_if (b w) g w)"
  by (simp add: preserves_def only_if_def skip_def)

lemma run_Cons_keeps:
  "P (fst (f w)) \<Longrightarrow> preserves P (run fs) \<Longrightarrow> P (fst (run (f # fs) w))"
  by (cases "f w") (auto simp: run.simps split: option.splits dest: preservesD)

lemma preserves_update_variables:
  "(\<And>v x. preserves P (modify (vars_update (AList.update v x)))) \<Longrightarrow>
   preserves P (backend (Update_variables vs)) \<Longrightarrow> preserves P (update_variables vs)"
  unfolding update_variables_def
  apply (intro preserves_run_Cons preserves_run_Nil preserves_for_each)
   apply (rule preservesI)
   apply (blast dest: preservesD)
  apply assumption
  done

lemma diff_vars_loop_tracked:
  "diff_vars_loop s h vs acc = Inr res \<Longrightarrow>
   set (fst res) \<subseteq> set (fst acc) \<union> set (keys (vars s))"
proof (induction vs arbitrary: acc)
  case Nil
  then show ?case by auto
next
  case (Cons v vs)
  obtain vtu cra need where acc: "acc = (vtu, cra, need)" by (cases acc) auto
  from Cons.prems obtain t where t: "map_of (vars s) v = Some t"
    unfolding acc by (cases "map_of (vars s) v") auto
  have v: "v \<in> set (keys (vars s))" using t by (rule map_of_SomeD_keys)
  have "\<exists>acc'. diff_vars_loop s h vs acc' = Inr res \<and> set (fst acc') \<subseteq> insert v (set vtu)"
    using Cons.prems unfolding acc
    by (cases t) (force simp: t split: if_splits option.splits)
  then obtain acc' where step: "diff_vars_loop s h vs acc' = Inr res"
    and sub: "set (fst acc') \<subseteq> insert v (set vtu)"
    by blast
  from Cons.IH[OF step] sub v show ?case unfolding acc by auto
qed

lemma diff_vars_tracked:
  "diff_vars d cra w = Inr (vars_to_update, cra', need) \<Longrightarrow>
   set vars_to_update \<subseteq> set (keys (vars (self w)))"
  using diff_vars_loop_tracked[of "self w" "heap w" "vars_to_check d (self w)" "([], cra, False)"
      "(vars_to_update, cra', need)"]
  by (auto simp: diff_vars_def split: if_splits)

lemma preserves_update:
  assumes a: "\<And>con. add_stable P con"
    and r: "\<And>con. remove_stable P con"
    and va: "\<And>vs. preserves P (check_for_new_vars vs)" "\<And>vs. preserves P (add_variables vs)"
    and vr: "\<And>vs. preserves P (check_to_remove_vars vs)" "\<And>vs. preserves P (remove_variables vs)"
    and h: "heap_stable P"
    and ob: "objective_stable P"
    and pa: "params_stable P"
    and c: "calls_stable P"
    and u: "\<And>vs w. P w \<Longrightarrow> set vs \<subseteq> set (keys (vars (self w))) \<Longrightarrow>
              P (fst (update_variables vs w))"
  shows "preserves P update"
proof -
  note b = calls_stableD[OF c]
  have rc: "preserves P (remove_constraints cs)" for cs
    by (rule preserves_remove_constraints) (rule r vr b)+
  have ac: "preserves P (add_constraints cs)" for cs
    by (rule preserves_add_constraints) (rule a va h b)+
  have rs: "preserves P (remove_sos_constraints cs)" for cs
    by (rule preserves_remove_sos_constraints) (rule r vr b)+
  have as: "preserves P (add_sos_constraints cs)" for cs
    by (rule preserves_add_sos_constraints) (rule a va b)+
  have so: "preserves P (set_objective obj)" for obj
    by (rule preserves_set_objective) (rule ob va vr h b)+
  have t4: "preserves P (reading (check_objective need)
              (\<lambda>(need_to_set_objective, pyomo_obj).
                 run [only_if need_to_set_objective (set_objective pyomo_obj),
                      remove_variables (old_vars d)]))" for need d
    by (rule preserves_reading)
      (auto split: prod.splits intro!: preserves_run_Cons preserves_run_Nil preserves_only_if so vr)
  have t3: "preserves P (reading (diff_named_expressions d) (\<lambda>cons_to_update.
              run [\<lambda>w. only_if (update_named_expressions (update_config (self w)))
                          (run [remove_constraints cons_to_update,
                                add_constraints cons_to_update]) w,
                   reading (check_objective need)
                     (\<lambda>(need_to_set_objective, pyomo_obj).
                        run [only_if need_to_set_objective (set_objective pyomo_obj),
                             remove_variables (old_vars d)])]))" for need d
    by (intro preserves_reading preserves_run_Cons preserves_run_Nil preserves_only_if_world
        rc ac t4)
  have t2: "preserves P (reading (diff_vars d cra)
              (\<lambda>(vars_to_update, cons_to_remove_and_add, need_to_set_objective).
                 run [\<lambda>w. only_if (update_vars (update_config (self w)))
                             (update_variables vars_to_update) w,
                      remove_constraints cons_to_remove_and_add,
                      add_constraints cons_to_remove_and_add,
                      reading (diff_named_expressions d) (\<lambda>cons_to_update.
                        run [\<lambda>w. only_if (update_named_expressions (update_config (self w)))
                                    (run [remove_constraints cons_to_update,
                                          add_constraints cons_to_update]) w,
                             reading (check_objective need_to_set_objective)
                               (\<lambda>(need_to_set_objective, pyomo_obj).
                                  run [only_if need_to_set_objective (set_objective pyomo_obj),
                                       remove_variables (old_vars d)])])]))" for d cra
  proof (rule preserves_reading_strong)
    fix x w
    assume x: "diff_vars d cra w = Inr x" and p: "P w"
    obtain vtu cra' need where x': "x = (vtu, cra', need)" by (cases x) auto
    have sub: "set vtu \<subseteq> set (keys (vars (self w)))"
      using x unfolding x' by (rule diff_vars_tracked)
    have first: "P (fst ((\<lambda>w. only_if (update_vars (update_config (self w)))
                             (update_variables vtu) w) w))"
      using p u[OF p sub] by (simp add: only_if_def skip_def)
    have rest: "preserves P (run [remove_constraints cra', add_constraints cra',
                      reading (diff_named_expressions d) (\<lambda>cons_to_update.
                        run [\<lambda>w. only_if (update_named_expressions (update_config (self w)))
                                    (run [remove_constraints cons_to_update,
                                          add_constraints cons_to_update]) w,
                             reading (check_objective need)
                               (\<lambda>(need_to_set_objective, pyomo_obj).
                                  run [only_if need_to_set_objective (set_objective pyomo_obj),
                                       remove_variables (old_vars d)])])])"
      by (intro preserves_run_Cons preserves_run_Nil rc ac t3)
    show "P (fst ((case x of (vars_to_update, cons_to_remove_and_add, need_to_set_objective) \<Rightarrow>
                 run [\<lambda>w. only_if (update_vars (update_config (self w)))
                             (update_variables vars_to_update) w,
                      remove_constraints cons_to_remove_and_add,
                      add_constraints cons_to_remove_and_add,
                      reading (diff_named_expressions d) (\<lambda>cons_to_update.
                        run [\<lambda>w. only_if (update_named_expressions (update_config (self w)))
                                    (run [remove_constraints cons_to_update,
                                          add_constraints cons_to_update]) w,
                             reading (check_objective need_to_set_objective)
                               (\<lambda>(need_to_set_objective, pyomo_obj).
                                  run [only_if need_to_set_objective (set_objective pyomo_obj),
                                       remove_variables (old_vars d)])])]) w))"
      unfolding x' prod.case
      by (rule run_Cons_keeps[of P "\<lambda>w. only_if (update_vars (update_config (self w)))
                             (update_variables vtu) w" w, OF first rest])
  qed
  show ?thesis
    unfolding update_def
    by (intro preserves_reading preserves_run_Cons preserves_run_Nil preserves_only_if_world
        rc ac rs as t2 b va vr preserves_add_params preserves_remove_params pa c)
qed

subsection \<open>The two tables of the variables\<close>

lemma tables_agree_add_stable: "add_stable tables_agree con"
  by (auto simp: stable_defs prim_defs tables_agree_def keys_update
      split: option.splits dest: map_of_SomeD_keys)

lemma tables_agree_remove_stable: "remove_stable tables_agree con"
  by (auto simp: stable_defs prim_defs tables_agree_def keys_update
      split: option.splits dest: map_of_SomeD_keys)

lemma tables_agree_calls_stable: "calls_stable tables_agree"
  by (simp add: stable_defs prim_defs tables_agree_def)

lemma tables_agree_heap_stable: "heap_stable tables_agree"
  by (simp add: stable_defs prim_defs tables_agree_def)

lemma tables_agree_params_stable: "params_stable tables_agree"
  by (simp add: stable_defs prim_defs tables_agree_def)

lemma tables_agree_objective_stable: "objective_stable tables_agree"
  by (auto simp: stable_defs prim_defs tables_agree_def keys_update
      split: option.splits dest: map_of_SomeD_keys)

lemma tables_agree_vars_add_stable: "vars_add_stable tables_agree"
  by (auto simp: stable_defs prim_defs tables_agree_def keys_update)

lemma tables_agree_vars_remove_stable: "vars_remove_stable tables_agree"
  by (auto simp: stable_defs prim_defs tables_agree_def keys_update keys_delete
      split: option.splits dest: map_of_SomeD_keys)

lemma tables_agree_update_variables:
  assumes "tables_agree w" and "set vs \<subseteq> set (keys (vars (self w)))"
  shows "tables_agree (fst (update_variables vs w))"
proof -
  let ?P = "\<lambda>w. tables_agree w \<and> set vs \<subseteq> set (keys (vars (self w)))"
  have "preserves ?P (update_variables vs)"
    unfolding update_variables_def
    by (intro preserves_run_Cons preserves_run_Nil preserves_for_each)
      (auto simp: prim_defs tables_agree_def keys_update)
  then show ?thesis using assms by (auto dest: preservesD)
qed

lemmas tables_agree_stable =
  tables_agree_add_stable tables_agree_remove_stable tables_agree_calls_stable
  tables_agree_heap_stable tables_agree_params_stable tables_agree_objective_stable
  preserves_check_for_new_vars[OF tables_agree_vars_add_stable]
  preserves_add_variables[OF tables_agree_vars_add_stable]
  preserves_check_to_remove_vars[OF tables_agree_vars_remove_stable]
  preserves_remove_variables[OF tables_agree_vars_remove_stable]
  calls_stableD[OF tables_agree_calls_stable]

lemma tables_agree_add_block: "preserves tables_agree (add_block b)"
proof (rule preservesI)
  fix w assume p: "tables_agree w"
  have "preserves tables_agree (run
           [add_params (dict_of_keys (block_mutable_params (blocks (heap w) b))),
            only_if (only_child_vars (self w))
              (add_variables (dict_of_keys (block_vars (blocks (heap w) b)))),
            add_constraints (block_constraints (blocks (heap w) b)),
            add_sos_constraints (block_sos_constraints (blocks (heap w) b)),
            reading (\<lambda>w'. get_objective (blocks (heap w) b))
              (\<lambda>obj. only_if (obj \<noteq> None) (set_objective obj))])"
    by (intro preserves_run_Cons preserves_run_Nil preserves_only_if preserves_reading
        preserves_add_params preserves_add_constraints preserves_add_sos_constraints
        preserves_set_objective tables_agree_stable)
  then show "tables_agree (fst (add_block b w))"
    using p by (auto simp: add_block_def Let_def dest: preservesD)
qed

lemma tables_agree_remove_block: "preserves tables_agree (remove_block b)"
proof (rule preservesI)
  fix w assume p: "tables_agree w"
  have "preserves tables_agree (run
           [remove_constraints (block_constraints (blocks (heap w) b)),
            remove_sos_constraints (block_sos_constraints (blocks (heap w) b)),
            only_if (only_child_vars (self w))
              (remove_variables (dict_of_keys (block_vars (blocks (heap w) b)))),
            remove_params (dict_of_keys (block_param_data (blocks (heap w) b)))])"
    by (intro preserves_run_Cons preserves_run_Nil preserves_only_if
        preserves_remove_params preserves_remove_constraints preserves_remove_sos_constraints
        tables_agree_stable)
  then show "tables_agree (fst (remove_block b w))"
    using p by (auto simp: remove_block_def Let_def dest: preservesD)
qed

lemma tables_agree_set_instance: "preserves tables_agree (set_instance m)"
  unfolding set_instance_def
  apply (intro preserves_run_Cons preserves_run_Nil preserves_only_if_world
      preserves_set_objective tables_agree_stable tables_agree_add_block)
  apply (simp add: prim_defs tables_agree_def init_def keys_def)
  done

text \<open>
  C9 (amended). After every public operation, whether it returns or raises, the variables
  with a snapshot record in \<open>_vars\<close> are the variables with a reference-count entry in
  \<open>_referenced_variables\<close>, provided they were before and \<open>update_variables\<close> is only called
  with variables that have a reference-count entry.
\<close>

theorem tables_agree_kept:
  assumes "tables_agree w"
    and "\<forall>vs. opn = Do_update_variables vs \<longrightarrow>
           set vs \<subseteq> set (keys (referenced_variables (self w)))"
  shows "tables_agree (fst (exec opn w))"
proof (cases opn)
  case (Do_update_variables vs)
  then have "set vs \<subseteq> set (keys (vars (self w)))"
    using assms by (simp add: tables_agree_def)
  then show ?thesis
    using assms(1) Do_update_variables by (simp add: tables_agree_update_variables)
next
  case Do_update
  have "preserves tables_agree update"
    by (rule preserves_update) (rule tables_agree_stable tables_agree_update_variables | assumption)+
  then show ?thesis using assms(1) Do_update by (auto dest: preservesD)
next
  case (Do_add_constraints cs)
  have "preserves tables_agree (add_constraints cs)"
    by (intro preserves_add_constraints tables_agree_stable)
  then show ?thesis using assms(1) Do_add_constraints by (auto dest: preservesD)
next
  case (Do_remove_constraints cs)
  have "preserves tables_agree (remove_constraints cs)"
    by (intro preserves_remove_constraints tables_agree_stable)
  then show ?thesis using assms(1) Do_remove_constraints by (auto dest: preservesD)
next
  case (Do_add_sos_constraints cs)
  have "preserves tables_agree (add_sos_constraints cs)"
    by (intro preserves_add_sos_constraints tables_agree_stable)
  then show ?thesis using assms(1) Do_add_sos_constraints by (auto dest: preservesD)
next
  case (Do_remove_sos_constraints cs)
  have "preserves tables_agree (remove_sos_constraints cs)"
    by (intro preserves_remove_sos_constraints tables_agree_stable)
  then show ?thesis using assms(1) Do_remove_sos_constraints by (auto dest: preservesD)
next
  case (Do_set_objective obj)
  have "preserves tables_agree (set_objective obj)"
    by (intro preserves_set_objective tables_agree_stable)
  then show ?thesis using assms(1) Do_set_objective by (auto dest: preservesD)
next
  case (Do_add_params ps)
  have "preserves tables_agree (add_params ps)"
    by (intro preserves_add_params tables_agree_stable)
  then show ?thesis using assms(1) Do_add_params by (auto dest: preservesD)
next
  case (Do_remove_params ps)
  have "preserves tables_agree (remove_params ps)"
    by (intro preserves_remove_params tables_agree_stable)
  then show ?thesis using assms(1) Do_remove_params by (auto dest: preservesD)
qed (use assms(1) in \<open>auto dest: preservesD[OF tables_agree_stable(7)]
       preservesD[OF tables_agree_stable(8)] preservesD[OF tables_agree_stable(9)]
       preservesD[OF tables_agree_stable(10)] preservesD[OF tables_agree_stable(11)]
       preservesD[OF tables_agree_add_block] preservesD[OF tables_agree_remove_block]
       preservesD[OF tables_agree_set_instance]\<close>)

theorem tables_agree_kept_witness:
  "tables_agree (start (config_all True) blank_model) \<and>
   set [] \<subseteq> set (keys (referenced_variables (self (start (config_all True) blank_model)))) \<and>
   tables_agree (fst (exec (Do_add_variables [1, 2]) (start (config_all True) blank_model))) \<and>
   keys (vars (self (fst (exec (Do_add_variables [1, 2])
      (start (config_all True) blank_model))))) = [1, 2]"
proof -
  have a: "tables_agree (start (config_all True) blank_model)"
    by (simp add: tables_agree_def exec_defs)
  have b: "\<forall>vs. Do_add_variables [1, 2] = Do_update_variables vs \<longrightarrow>
     set vs \<subseteq> set (keys (referenced_variables (self (start (config_all True) blank_model))))"
    by simp
  from tables_agree_kept[OF a b] a show ?thesis
    by (simp add: exec_defs)
qed

text \<open>
  C9 as stated fails for \<open>update_variables\<close>: called on a fresh interface object with a
  variable that was never added, it writes a snapshot record and no reference-count entry.
\<close>

theorem tables_agree_counterexample:
  "tables_agree (start (config_all True) blank_model) \<and>
   keys (vars (self (fst (update_variables [5] (start (config_all True) blank_model))))) = [5] \<and>
   keys (referenced_variables
     (self (fst (update_variables [5] (start (config_all True) blank_model))))) = [] \<and>
   \<not> tables_agree (fst (update_variables [5] (start (config_all True) blank_model)))"
  by (simp add: tables_agree_def update_variables_def exec_defs)

subsection \<open>Adding twice\<close>

lemma run_Cons_success:
  "run (f # fs) w = (w', None) \<longleftrightarrow> (\<exists>w1. f w = (w1, None) \<and> run fs w1 = (w', None))"
  by (cases "f w") (auto simp: run.simps split: option.splits)

lemma run_establishes:
  assumes "snd (run (pre @ f # post) w) = None"
    and "\<And>w. snd (f w) = None \<Longrightarrow> Q (fst (f w))"
    and "preserves Q (run post)"
  shows "Q (fst (run (pre @ f # post) w))"
  using assms(1)
proof (induction pre arbitrary: w)
  case Nil
  obtain w1 r where f: "f w = (w1, r)" by (cases "f w")
  with Nil have r: "r = None" by (cases r) (auto simp: run.simps)
  have "Q w1" using assms(2)[of w] f r by simp
  then have "Q (fst (run post w1))" using assms(3) by (auto dest: preservesD)
  then show ?case using f r by (simp add: run.simps)
next
  case (Cons g pre)
  obtain w1 r where g: "g w = (w1, r)" by (cases "g w")
  with Cons.prems have r: "r = None" by (cases r) (auto simp: run.simps)
  have "snd (run (pre @ f # post) w1) = None" using Cons.prems g r by (simp add: run.simps)
  from Cons.IH[OF this] show ?case using g r by (simp add: run.simps)
qed

lemma in_keys_add_stable:
  "add_stable (\<lambda>w. c \<in> set (keys (named_expressions (self w)))) con"
  "add_stable (\<lambda>w. c \<in> set (keys (vars_referenced_by_con (self w)))) con"
  by (auto simp: stable_defs prim_defs keys_update split: option.splits)

lemma in_keys_vars_add_stable:
  "vars_add_stable (\<lambda>w. c \<in> set (keys (named_expressions (self w))))"
  "vars_add_stable (\<lambda>w. c \<in> set (keys (vars_referenced_by_con (self w))))"
  by (auto simp: stable_defs prim_defs)

lemma in_keys_heap_stable:
  "heap_stable (\<lambda>w. c \<in> set (keys (named_expressions (self w))))"
  "calls_stable (\<lambda>w. c \<in> set (keys (named_expressions (self w))))"
  "calls_stable (\<lambda>w. c \<in> set (keys (vars_referenced_by_con (self w))))"
  by (auto simp: stable_defs prim_defs)

lemma add_constraints_body_records:
  assumes "add_constraints_body con afv w = (w1, Inr afv')"
  shows "con \<in> set (keys (named_expressions (self w1)))"
proof -
  let ?Q = "\<lambda>w. con \<in> set (keys (named_expressions (self w)))"
  have new: "con \<notin> set (keys (named_expressions (self w)))"
    using assms by (auto simp: add_constraints_body_def split: if_splits)
  obtain ne vs fv ef where
    c: "collect_vars_and_named_exprs (heap w) (con_body (heap w) con) = (ne, vs, fv, ef)"
    by (cases "collect_vars_and_named_exprs (heap w) (con_body (heap w) con)") auto
  let ?pre = "[modify (active_constraints_update
                 (AList.update con (Some (con_lower (heap w) con, con_body (heap w) con,
                                          con_upper (heap w) con)))),
               only_if (\<not> only_child_vars (self w)) (check_for_new_vars vs)]"
  let ?f = "modify (named_expressions_update
                 (AList.update con (map (\<lambda>e. (e, named_expr (heap w) e)) ne)))"
  let ?post = "[only_if (ef \<noteq> [])
                 (modify (external_functions_update (AList.update con ef))),
               modify (vars_referenced_by_con_update (AList.update con (List_of vs))),
               for_each (link_con con) vs,
               only_if (\<not> treat_fixed_vars_as_params (update_config (self w)))
                 (for_each (\<lambda>v. modify_heap (var_unfix v)) fv)]"
  have run: "run (?pre @ ?f # ?post) w = (w1, None)"
    using assms new c
    by (cases "run (?pre @ ?f # ?post) w")
      (auto simp: add_constraints_body_def Let_def split: option.splits)
  have post: "preserves ?Q (run ?post)"
    using in_keys_add_stable(1)[of con con] in_keys_heap_stable(1)[of con]
    unfolding add_stable_def heap_stable_def
    by (intro preserves_run_Cons preserves_run_Nil preserves_for_each preserves_only_if)
      simp_all
  have s: "snd (run (?pre @ ?f # ?post) w) = None" using run by simp
  have "?Q (fst (run (?pre @ ?f # ?post) w))"
    by (rule run_establishes[OF s _ post]) (simp add: modify_def keys_update)
  then show ?thesis using run by simp
qed

lemma add_constraints_loop_records:
  "add_constraints_loop cons afv w = (w1, Inr afv') \<Longrightarrow>
   \<forall>c\<in>set cons. c \<in> set (keys (named_expressions (self w1)))"
proof (induction cons arbitrary: afv w)
  case Nil
  then show ?case by simp
next
  case (Cons con cons)
  from Cons.prems obtain w2 afv2 where
    b: "add_constraints_body con afv w = (w2, Inr afv2)"
    and l: "add_constraints_loop cons afv2 w2 = (w1, Inr afv')"
    by (auto split: prod.splits sum.splits)
  have "con \<in> set (keys (named_expressions (self w2)))"
    using b by (rule add_constraints_body_records)
  then have "con \<in> set (keys (named_expressions (self (fst (add_constraints_loop cons afv2 w2)))))"
    by (rule add_constraints_loop_keeps[rotated 3])
      (simp_all add: in_keys_add_stable preserves_check_for_new_vars[OF in_keys_vars_add_stable(1)]
        in_keys_heap_stable[unfolded heap_stable_def])
  with Cons.IH[OF l] l show ?case by simp
qed

lemma add_constraints_records:
  assumes "add_constraints cons w = (w1, None)" and "c \<in> set cons"
  shows "c \<in> set (keys (named_expressions (self w1)))"
proof -
  from assms(1) obtain w2 afv where
    l: "add_constraints_loop cons [] w = (w2, Inr afv)"
    and r: "run [backend (Add_constraints cons),
                 for_each (\<lambda>v. modify_heap (var_fix v)) afv] w2 = (w1, None)"
    by (auto simp: add_constraints_def split: prod.splits sum.splits)
  have "c \<in> set (keys (named_expressions (self w2)))"
    using add_constraints_loop_records[OF l] assms(2) by simp
  moreover have "preserves (\<lambda>w. c \<in> set (keys (named_expressions (self w))))
     (run [backend (Add_constraints cons), for_each (\<lambda>v. modify_heap (var_fix v)) afv])"
    using in_keys_heap_stable(1,2)[of c] unfolding heap_stable_def calls_stable_def
    by (intro preserves_run_Cons preserves_run_Nil preserves_for_each) simp_all
  ultimately show ?thesis using r by (auto dest: preservesD)
qed

lemma add_constraints_again:
  "c \<in> set (keys (named_expressions (self w))) \<Longrightarrow>
   add_constraints [c] w = (w, Some (ValueError (ConAlreadyAdded c)))"
  by (simp add: add_constraints_def add_constraints_body_def)

lemma add_sos_constraints_body_records:
  assumes "snd (add_sos_constraints_body con w) = None"
  shows "con \<in> set (keys (vars_referenced_by_con (self (fst (add_sos_constraints_body con w)))))"
proof -
  let ?Q = "\<lambda>w. con \<in> set (keys (vars_referenced_by_con (self w)))"
  have new: "con \<notin> set (keys (vars_referenced_by_con (self w)))"
    using assms by (auto simp: add_sos_constraints_body_def raise_def split: if_splits)
  let ?vs = "sos_variables (heap w) con"
  let ?pre = "[modify (active_constraints_update (AList.update con None)),
               only_if (\<not> only_child_vars (self w)) (check_for_new_vars ?vs),
               modify (named_expressions_update (AList.update con []))]"
  let ?ny = "if only_child_vars (self w) then ?vs else []"
  let ?f = "modify (vars_referenced_by_con_update (AList.update con (Generator ?ny)))"
  let ?post = "[drain con (link_sos con) ?ny]"
  have eq: "add_sos_constraints_body con w = run (?pre @ ?f # ?post) w"
    using new by (simp add: add_sos_constraints_body_def Let_def)
  have post: "preserves ?Q (run ?post)"
    using in_keys_add_stable(2)[of con con] unfolding add_stable_def
    by (intro preserves_run_Cons preserves_run_Nil preserves_drain) simp_all
  have s: "snd (run (?pre @ ?f # ?post) w) = None" using assms eq by simp
  have "?Q (fst (run (?pre @ ?f # ?post) w))"
    by (rule run_establishes[OF s _ post]) (simp add: modify_def keys_update)
  then show ?thesis using eq by simp
qed

lemma add_sos_constraints_records:
  assumes "add_sos_constraints cons w = (w1, None)" and "c \<in> set cons"
  shows "c \<in> set (keys (vars_referenced_by_con (self w1)))"
proof -
  from assms(1) obtain w2 where
    l: "for_each add_sos_constraints_body cons w = (w2, None)"
    and r: "backend (Add_sos_constraints cons) w2 = (w1, None)"
    by (auto simp: add_sos_constraints_def run.simps split: prod.splits option.splits)
  have "\<forall>x\<in>set cons. x \<in> set (keys (vars_referenced_by_con
           (self (fst (for_each add_sos_constraints_body cons w)))))"
    by (rule for_each_success_all[where Q="\<lambda>x w. x \<in> set (keys (vars_referenced_by_con (self w)))"])
      (simp_all add: l add_sos_constraints_body_records preserves_add_sos_constraints_body
        in_keys_add_stable preserves_check_for_new_vars[OF in_keys_vars_add_stable(2)])
  then have "c \<in> set (keys (vars_referenced_by_con (self w2)))"
    using assms(2) l by simp
  then show ?thesis using r by (auto simp: backend_def)
qed

lemma add_sos_constraints_again:
  "c \<in> set (keys (vars_referenced_by_con (self w))) \<Longrightarrow>
   add_sos_constraints [c] w = (w, Some (ValueError (ConAlreadyAdded c)))"
  by (simp add: add_sos_constraints_def add_sos_constraints_body_def raise_def run.simps)

lemma for_each_modify:
  "for_each (\<lambda>x. modify (g x)) xs w = (w\<lparr>self := fold g xs (self w)\<rparr>, None)"
  by (induction xs arbitrary: w) (simp_all add: modify_def)

lemma add_params_result:
  "add_params ps w =
     (w\<lparr>self := fold (\<lambda>p. params_update (dict_add p)) ps (self w), calls := calls w @ [Add_params ps]\<rparr>,
      if raises w (calls w) (Add_params ps) then Some BackendError else None)"
  by (simp add: add_params_def run.simps for_each_modify backend_def)

lemma on_record_stable:
  "add_stable (\<lambda>w. on_record (self w) c) con"
  "con \<noteq> c \<Longrightarrow> remove_stable (\<lambda>w. on_record (self w) c) con"
  "vars_add_stable (\<lambda>w. on_record (self w) c)"
  "vars_remove_stable (\<lambda>w. on_record (self w) c)"
  "heap_stable (\<lambda>w. on_record (self w) c)"
  "objective_stable (\<lambda>w. on_record (self w) c)"
  "params_stable (\<lambda>w. on_record (self w) c)"
  "calls_stable (\<lambda>w. on_record (self w) c)"
  by (auto simp: stable_defs prim_defs on_record_def keys_update keys_delete
      split: option.splits)

lemma on_record_checks:
  "preserves (\<lambda>w. on_record (self w) c) (check_for_new_vars vs)"
  "preserves (\<lambda>w. on_record (self w) c) (check_to_remove_vars vs)"
  "preserves (\<lambda>w. on_record (self w) c) (add_variables vs)"
  "preserves (\<lambda>w. on_record (self w) c) (remove_variables vs)"
  by (intro preserves_check_for_new_vars preserves_check_to_remove_vars preserves_add_variables
      preserves_remove_variables on_record_stable)+

lemma on_record_update_variables:
  "preserves (\<lambda>w. on_record (self w) c) (update_variables vs)"
  by (rule preserves_update_variables)
    (simp_all add: prim_defs on_record_def)

lemma on_record_adds:
  "preserves (\<lambda>w. on_record (self w) c) (add_constraints cs)"
  "preserves (\<lambda>w. on_record (self w) c) (add_sos_constraints cs)"
  "preserves (\<lambda>w. on_record (self w) c) (add_params ps)"
  "preserves (\<lambda>w. on_record (self w) c) (remove_params ps)"
  "preserves (\<lambda>w. on_record (self w) c) (set_objective ob)"
  by (intro preserves_add_constraints preserves_add_sos_constraints preserves_add_params
      preserves_remove_params preserves_set_objective on_record_stable on_record_checks
      calls_stableD)+

lemma on_record_removes:
  assumes "c \<notin> set cs"
  shows "preserves (\<lambda>w. on_record (self w) c) (remove_constraints cs)"
    and "preserves (\<lambda>w. on_record (self w) c) (remove_sos_constraints cs)"
  using assms
  by (intro preserves_remove_constraints preserves_remove_sos_constraints
      on_record_stable on_record_checks calls_stableD; auto)+

lemma on_record_add_block: "preserves (\<lambda>w. on_record (self w) c) (add_block b)"
proof (rule preservesI)
  fix w :: world
  assume p: "on_record (self w) c"
  have "preserves (\<lambda>w. on_record (self w) c) (run
           [add_params (dict_of_keys (block_mutable_params (blocks (heap w) b))),
            only_if (only_child_vars (self w))
              (add_variables (dict_of_keys (block_vars (blocks (heap w) b)))),
            add_constraints (block_constraints (blocks (heap w) b)),
            add_sos_constraints (block_sos_constraints (blocks (heap w) b)),
            reading (\<lambda>w'. get_objective (blocks (heap w) b))
              (\<lambda>obj. only_if (obj \<noteq> None) (set_objective obj))])"
    by (intro preserves_run_Cons preserves_run_Nil preserves_only_if preserves_reading
        on_record_adds on_record_checks)
  then show "on_record (self (fst (add_block b w))) c"
    using p by (auto simp: add_block_def Let_def dest: preservesD)
qed

lemma on_record_kept:
  assumes "\<not> may_forget opn c" and "on_record (self w) c"
  shows "on_record (self (fst (exec opn w))) c"
proof -
  have "preserves (\<lambda>w. on_record (self w) c) (exec opn)"
    using assms(1)
    by (cases opn)
      (simp_all add: on_record_adds on_record_checks on_record_removes on_record_add_block
        on_record_update_variables calls_stableD[OF on_record_stable(8)])
  then show ?thesis using assms(2) by (rule preservesD)
qed

lemma add_constraints_body_stores:
  assumes "add_constraints_body con afv w = (w1, Inr afv')"
  shows "con \<in> set (keys (vars_referenced_by_con (self w1)))"
proof -
  let ?Q = "\<lambda>w. con \<in> set (keys (vars_referenced_by_con (self w)))"
  have new: "con \<notin> set (keys (named_expressions (self w)))"
    using assms by (auto simp: add_constraints_body_def split: if_splits)
  obtain ne vs fv ef where
    c: "collect_vars_and_named_exprs (heap w) (con_body (heap w) con) = (ne, vs, fv, ef)"
    by (cases "collect_vars_and_named_exprs (heap w) (con_body (heap w) con)") auto
  let ?pre = "[modify (active_constraints_update
                 (AList.update con (Some (con_lower (heap w) con, con_body (heap w) con,
                                          con_upper (heap w) con)))),
               only_if (\<not> only_child_vars (self w)) (check_for_new_vars vs),
               modify (named_expressions_update
                 (AList.update con (map (\<lambda>e. (e, named_expr (heap w) e)) ne))),
               only_if (ef \<noteq> [])
                 (modify (external_functions_update (AList.update con ef)))]"
  let ?f = "modify (vars_referenced_by_con_update (AList.update con (List_of vs)))"
  let ?post = "[for_each (link_con con) vs,
               only_if (\<not> treat_fixed_vars_as_params (update_config (self w)))
                 (for_each (\<lambda>v. modify_heap (var_unfix v)) fv)]"
  have run: "run (?pre @ ?f # ?post) w = (w1, None)"
    using assms new c
    by (cases "run (?pre @ ?f # ?post) w")
      (auto simp: add_constraints_body_def Let_def split: option.splits)
  have post: "preserves ?Q (run ?post)"
    using in_keys_add_stable(2)[of con con]
    unfolding add_stable_def
    by (intro preserves_run_Cons preserves_run_Nil preserves_for_each preserves_only_if)
      (simp_all add: prim_defs)
  have s: "snd (run (?pre @ ?f # ?post) w) = None" using run by simp
  have "?Q (fst (run (?pre @ ?f # ?post) w))"
    by (rule run_establishes[OF s _ post]) (simp add: modify_def keys_update)
  then show ?thesis using run by simp
qed

lemma add_constraints_loop_on_record:
  "add_constraints_loop cons afv w = (w1, Inr afv') \<Longrightarrow>
   \<forall>c\<in>set cons. on_record (self w1) c"
proof (induction cons arbitrary: afv w)
  case Nil
  then show ?case by simp
next
  case (Cons con cons)
  from Cons.prems obtain w2 afv2 where
    b: "add_constraints_body con afv w = (w2, Inr afv2)"
    and l: "add_constraints_loop cons afv2 w2 = (w1, Inr afv')"
    by (auto split: prod.splits sum.splits)
  have "on_record (self w2) con"
    using add_constraints_body_records[OF b] add_constraints_body_stores[OF b]
    by (simp add: on_record_def)
  then have "on_record (self (fst (add_constraints_loop cons afv2 w2))) con"
    by (rule add_constraints_loop_keeps[rotated 3])
      (simp_all add: on_record_stable on_record_checks on_record_stable(5)[unfolded heap_stable_def])
  with Cons.IH[OF l] l show ?case by simp
qed

lemma add_constraints_on_record:
  assumes "add_constraints cons w = (w1, None)" and "c \<in> set cons"
  shows "on_record (self w1) c"
proof -
  from assms(1) obtain w2 afv where
    l: "add_constraints_loop cons [] w = (w2, Inr afv)"
    and r: "run [backend (Add_constraints cons),
                 for_each (\<lambda>v. modify_heap (var_fix v)) afv] w2 = (w1, None)"
    by (auto simp: add_constraints_def split: prod.splits sum.splits)
  have "on_record (self w2) c"
    using add_constraints_loop_on_record[OF l] assms(2) by simp
  moreover have "preserves (\<lambda>w. on_record (self w) c)
     (run [backend (Add_constraints cons), for_each (\<lambda>v. modify_heap (var_fix v)) afv])"
    using on_record_stable(5,8)[of c] unfolding heap_stable_def calls_stable_def
    by (intro preserves_run_Cons preserves_run_Nil preserves_for_each) simp_all
  ultimately show ?thesis using r by (auto dest: preservesD)
qed

lemma add_sos_constraints_body_names:
  assumes "snd (add_sos_constraints_body con w) = None"
  shows "con \<in> set (keys (named_expressions (self (fst (add_sos_constraints_body con w)))))"
proof -
  let ?Q = "\<lambda>w. con \<in> set (keys (named_expressions (self w)))"
  have new: "con \<notin> set (keys (vars_referenced_by_con (self w)))"
    using assms by (auto simp: add_sos_constraints_body_def raise_def split: if_splits)
  let ?vs = "sos_variables (heap w) con"
  let ?ny = "if only_child_vars (self w) then ?vs else []"
  let ?pre = "[modify (active_constraints_update (AList.update con None)),
               only_if (\<not> only_child_vars (self w)) (check_for_new_vars ?vs)]"
  let ?f = "modify (named_expressions_update (AList.update con []))"
  let ?post = "[modify (vars_referenced_by_con_update (AList.update con (Generator ?ny))),
               drain con (link_sos con) ?ny]"
  have eq: "add_sos_constraints_body con w = run (?pre @ ?f # ?post) w"
    using new by (simp add: add_sos_constraints_body_def Let_def)
  have post: "preserves ?Q (run ?post)"
    using in_keys_add_stable(1)[of con con] unfolding add_stable_def
    by (intro preserves_run_Cons preserves_run_Nil preserves_drain) simp_all
  have s: "snd (run (?pre @ ?f # ?post) w) = None" using assms eq by simp
  have "?Q (fst (run (?pre @ ?f # ?post) w))"
    by (rule run_establishes[OF s _ post]) (simp add: modify_def keys_update)
  then show ?thesis using eq by simp
qed

lemma on_record_add_sos_constraints_body:
  "preserves (\<lambda>w. on_record (self w) c) (add_sos_constraints_body con)"
  by (intro preserves_add_sos_constraints_body on_record_stable on_record_checks)

lemma add_sos_constraints_on_record:
  assumes "add_sos_constraints cons w = (w1, None)" and "c \<in> set cons"
  shows "on_record (self w1) c"
proof -
  from assms(1) obtain w2 where
    l: "for_each add_sos_constraints_body cons w = (w2, None)"
    and r: "backend (Add_sos_constraints cons) w2 = (w1, None)"
    by (auto simp: add_sos_constraints_def run.simps split: prod.splits option.splits)
  have "\<forall>x\<in>set cons. on_record (self (fst (for_each add_sos_constraints_body cons w))) x"
    by (rule for_each_success_all[where Q="\<lambda>x w. on_record (self w) x"])
      (simp_all add: l add_sos_constraints_body_records add_sos_constraints_body_names
        on_record_def[of "self (fst (add_sos_constraints_body _ _))"]
        on_record_add_sos_constraints_body)
  then have "on_record (self w2) c" using assms(2) l by simp
  then show ?thesis using r by (auto simp: backend_def on_record_def)
qed

text \<open>The constraint on record in the list: the loop raises when it comes to it.\<close>

lemma add_constraints_loop_append:
  "add_constraints_loop (pre @ rest) afv w =
     (case add_constraints_loop pre afv w of
        (w', Inl e) \<Rightarrow> (w', Inl e)
      | (w', Inr afv') \<Rightarrow> add_constraints_loop rest afv' w')"
  by (induction pre arbitrary: afv w) (auto split: prod.splits sum.splits)

lemma on_record_loop:
  "on_record (self w) c \<Longrightarrow> on_record (self (fst (add_constraints_loop cons afv w))) c"
  by (rule add_constraints_loop_keeps[rotated 3])
    (simp_all add: on_record_stable on_record_checks on_record_stable(5)[unfolded heap_stable_def])

lemma add_constraints_raises:
  assumes "on_record (self w) c"
    and "add_constraints_loop pre [] w = (w2, Inr afv)"
  shows "add_constraints (pre @ c # post) w = (w2, Some (ValueError (ConAlreadyAdded c)))"
proof -
  from on_record_loop[OF assms(1), of pre "[]"] assms(2)
  have "c \<in> set (keys (named_expressions (self w2)))" by (simp add: on_record_def)
  then have "add_constraints_body c afv w2 = (w2, Inl (ValueError (ConAlreadyAdded c)))"
    by (simp add: add_constraints_body_def)
  then show ?thesis
    using assms(2) by (simp add: add_constraints_def add_constraints_loop_append)
qed

lemma for_each_append:
  "for_each body (xs @ ys) w =
     (case for_each body xs w of
        (w', None) \<Rightarrow> for_each body ys w'
      | (w', Some e) \<Rightarrow> (w', Some e))"
  by (induction xs arbitrary: w) (auto split: prod.splits option.splits)

lemma add_sos_constraints_raises:
  assumes "on_record (self w) c"
    and "for_each add_sos_constraints_body pre w = (w2, None)"
  shows "add_sos_constraints (pre @ c # post) w = (w2, Some (ValueError (ConAlreadyAdded c)))"
proof -
  have "preserves (\<lambda>w. on_record (self w) c) (for_each add_sos_constraints_body pre)"
    by (intro preserves_for_each on_record_add_sos_constraints_body)
  from preservesD[OF this assms(1)] assms(2)
  have "c \<in> set (keys (vars_referenced_by_con (self w2)))" by (simp add: on_record_def)
  then have "add_sos_constraints_body c w2 = (w2, Some (ValueError (ConAlreadyAdded c)))"
    by (simp add: add_sos_constraints_body_def raise_def)
  then show ?thesis
    using assms(2) by (simp add: add_sos_constraints_def for_each_append run.simps)
qed

text \<open>Wherever it is in the list, the call raises before it comes to the backend.\<close>

lemma only_adds_variables_stable:
  "add_stable (only_adds_variables before) con"
  "heap_stable (only_adds_variables before)"
  "preserves (only_adds_variables before) (add_variables_body v)"
  "preserves (only_adds_variables before) (backend (Add_variables vs))"
  by (auto simp: stable_defs prim_defs only_adds_variables_def split: option.splits)

lemma only_adds_variables_check:
  "preserves (only_adds_variables before) (check_for_new_vars vs)"
  by (intro preserves_check_for_new_vars)
    (simp add: vars_add_stable_def only_adds_variables_stable)

lemma only_adds_variables_since:
  "only_adds_variables before w \<Longrightarrow>
   Add_constraints cs \<notin> set (calls_since before w) \<and>
   Add_sos_constraints cs \<notin> set (calls_since before w)"
  by (auto simp: only_adds_variables_def calls_since_def)

lemma add_constraints_loop_raises:
  "on_record (self w) c \<Longrightarrow> c \<in> set cons \<Longrightarrow>
   \<exists>e. snd (add_constraints_loop cons afv w) = Inl e"
proof (induction cons arbitrary: afv w)
  case Nil
  then show ?case by simp
next
  case (Cons con cons)
  show ?case
  proof (cases "add_constraints_body con afv w")
    case (Pair w2 r)
    show ?thesis
    proof (cases r)
      case (Inl e)
      with Pair show ?thesis by simp
    next
      case (Inr afv2)
      have "con \<noteq> c"
        using Pair Inr Cons.prems(1)
        by (auto simp: add_constraints_body_def on_record_def)
      with Cons.prems(2) have "c \<in> set cons" by simp
      moreover have "on_record (self w2) c"
        using add_constraints_body_keeps[of "\<lambda>w. on_record (self w) c" con w afv] Cons.prems(1)
          Pair
        by (simp add: on_record_stable on_record_checks
            on_record_stable(5)[unfolded heap_stable_def])
      ultimately obtain e where "snd (add_constraints_loop cons afv2 w2) = Inl e"
        using Cons.IH by blast
      with Pair Inr show ?thesis by simp
    qed
  qed
qed

lemma add_constraints_never_reaches:
  assumes "on_record (self w) c" and "c \<in> set cons"
  shows "snd (add_constraints cons w) \<noteq> None \<and>
         Add_constraints cons \<notin> set (calls_since (calls w) (fst (add_constraints cons w)))"
proof -
  obtain w2 r where l: "add_constraints_loop cons [] w = (w2, r)"
    by (cases "add_constraints_loop cons [] w")
  from add_constraints_loop_raises[OF assms, of "[]"] l obtain e where r: "r = Inl e" by auto
  have "only_adds_variables (calls w) w" by (simp add: only_adds_variables_def)
  then have "only_adds_variables (calls w) (fst (add_constraints_loop cons [] w))"
    by (rule add_constraints_loop_keeps[rotated 3])
      (simp_all add: only_adds_variables_stable only_adds_variables_check
        only_adds_variables_stable(2)[unfolded heap_stable_def])
  with l have "only_adds_variables (calls w) w2" by simp
  from only_adds_variables_since[OF this] l r show ?thesis
    by (simp add: add_constraints_def)
qed

lemma add_sos_constraints_never_reaches:
  assumes "on_record (self w) c" and "c \<in> set cons"
  shows "snd (add_sos_constraints cons w) \<noteq> None \<and>
         Add_sos_constraints cons
           \<notin> set (calls_since (calls w) (fst (add_sos_constraints cons w)))"
proof -
  from assms(2) obtain pre post where cons: "cons = pre @ c # post"
    by (auto simp: in_set_conv_decomp)
  have keep: "preserves (only_adds_variables (calls w)) (for_each add_sos_constraints_body xs)"
    for xs
    by (intro preserves_for_each preserves_add_sos_constraints_body
        only_adds_variables_stable only_adds_variables_check)
  have start: "only_adds_variables (calls w) w" by (simp add: only_adds_variables_def)
  obtain w2 r where p: "for_each add_sos_constraints_body pre w = (w2, r)"
    by (cases "for_each add_sos_constraints_body pre w")
  from preservesD[OF keep start, of pre] p have o: "only_adds_variables (calls w) w2" by simp
  show ?thesis
  proof (cases r)
    case None
    from add_sos_constraints_raises[OF assms(1) p[unfolded None], of post]
      only_adds_variables_since[OF o]
    show ?thesis by (simp add: cons)
  next
    case (Some e)
    with p have "add_sos_constraints cons w = (w2, Some e)"
      by (simp add: cons add_sos_constraints_def for_each_append run.simps)
    with only_adds_variables_since[OF o] show ?thesis by simp
  qed
qed

text \<open>
  C6 (amended). A successful \<open>add_constraints\<close> or \<open>add_sos_constraints\<close> puts every constraint
  of its list on record, and the constraint stays on record through every operation but a
  removal of a list that has it, \<open>remove_block\<close>, \<open>set_instance\<close> and \<open>update\<close>. While a
  constraint is on record, every \<open>add_constraints\<close> and every \<open>add_sos_constraints\<close> with a
  list that has it raises and never comes to the backend's \<open>_add_constraints\<close> resp.
  \<open>_add_sos_constraints\<close>. When the loop has gone through the entries before it in the list
  without an error, the error is the has-already-been-added \<open>ValueError\<close> for it, and the
  world is the one those entries left: nothing is rolled back, and nothing is changed when it
  is the first of the list. A mutable parameter can be added again: \<open>add_params\<close> never
  raises by itself (only when the backend's \<open>_add_params\<close> does), it overwrites the entry of
  the parameter and passes the list on to the backend.
\<close>

theorem duplicate_add:
  "(add_constraints cons w = (w1, None) \<and> c \<in> set cons \<longrightarrow> on_record (self w1) c) \<and>
   (add_sos_constraints cons w = (w1, None) \<and> c \<in> set cons \<longrightarrow> on_record (self w1) c) \<and>
   (on_record (self w1) c \<and> \<not> may_forget opn c \<longrightarrow> on_record (self (fst (exec opn w1))) c) \<and>
   (on_record (self w1) c \<and> c \<in> set cs \<longrightarrow>
      snd (add_constraints cs w1) \<noteq> None \<and>
      Add_constraints cs \<notin> set (calls_since (calls w1) (fst (add_constraints cs w1))) \<and>
      snd (add_sos_constraints cs w1) \<noteq> None \<and>
      Add_sos_constraints cs
        \<notin> set (calls_since (calls w1) (fst (add_sos_constraints cs w1)))) \<and>
   (on_record (self w1) c \<and> add_constraints_loop pre [] w1 = (w2, Inr afv) \<longrightarrow>
      add_constraints (pre @ c # post) w1 = (w2, Some (ValueError (ConAlreadyAdded c)))) \<and>
   (on_record (self w1) c \<and> for_each add_sos_constraints_body pre w1 = (w2, None) \<longrightarrow>
      add_sos_constraints (pre @ c # post) w1 = (w2, Some (ValueError (ConAlreadyAdded c)))) \<and>
   snd (add_params ps w) = (if raises w (calls w) (Add_params ps) then Some BackendError else None) \<and>
   set (params (self (fst (add_params ps w)))) = set (params (self w)) \<union> set ps \<and>
   calls (fst (add_params ps w)) = calls w @ [Add_params ps]"
proof -
  have p: "set (params (fold (\<lambda>p. params_update (dict_add p)) ps s)) = set (params s) \<union> set ps" for s
    by (induction ps arbitrary: s) auto
  show ?thesis
    using add_constraints_on_record[of cons w w1 c] add_sos_constraints_on_record[of cons w w1 c]
      on_record_kept[of opn c w1] add_constraints_never_reaches[of w1 c cs]
      add_sos_constraints_never_reaches[of w1 c cs] add_constraints_raises[of w1 c pre w2 afv post]
      add_sos_constraints_raises[of w1 c pre w2 post]
    by (simp add: add_params_result p)
qed

lemmas exec_defs2 =
  exec_defs small_model_def add_constraints_def add_constraints_body_def
  Let_def collect_vars_and_named_exprs_eq ids_where_def link_con_def link_sos_def link_obj_def
  unlink_con_def unlink_sos_def check_for_new_vars_def check_to_remove_vars_def var_fix_def
  var_unfix_def add_sos_constraints_def add_sos_constraints_body_def remove_constraints_def
  remove_constraints_body_def remove_sos_constraints_def remove_sos_constraints_body_def
  set_objective_def add_params_def remove_params_def update_variables_def
  check_to_remove_vars_of_def unwalked_def

theorem duplicate_add_witness:
  "snd (add_constraints [1] (start (config_all False) small_model)) = None \<and>
   on_record (self (fst (add_constraints [1] (start (config_all False) small_model)))) 1 \<and>
   on_record (self (fst (exec (Do_add_params [8])
      (fst (add_constraints [1] (start (config_all False) small_model)))))) 1 \<and>
   snd (add_constraints [1] (fst (add_constraints [1] (start (config_all False) small_model))))
     = Some (ValueError (ConAlreadyAdded 1)) \<and>
   fst (add_constraints [1] (fst (add_constraints [1] (start (config_all False) small_model))))
     = fst (add_constraints [1] (start (config_all False) small_model)) \<and>
   snd (add_constraints [9, 1]
          (fst (add_constraints [1] (start (config_all False) small_model))))
     = Some (ValueError (ConAlreadyAdded 1)) \<and>
   on_record (self (fst (add_constraints [9, 1]
          (fst (add_constraints [1] (start (config_all False) small_model)))))) 9 \<and>
   var_fixed (heap (fst (add_constraints [1] (start (config_all False) small_model)))) 2 \<and>
   \<not> var_fixed (heap (fst (add_constraints [9, 1]
          (fst (add_constraints [1] (start (config_all False) small_model)))))) 2 \<and>
   calls (fst (add_constraints [9, 1]
          (fst (add_constraints [1] (start (config_all False) small_model)))))
     = [Add_variables [2, 3], Add_constraints [1], Add_variables []] \<and>
   snd (add_sos_constraints [4] (start (config_all False) small_model)) = None \<and>
   snd (add_sos_constraints [4]
          (fst (add_sos_constraints [4] (start (config_all False) small_model))))
     = Some (ValueError (ConAlreadyAdded 4))"
proof -
  let ?w = "start (config_all False) small_model"
  let ?w1 = "fst (add_constraints [1] ?w)"
  let ?s1 = "fst (add_sos_constraints [4] ?w)"
  let ?w2 = "fst (add_constraints_loop [9] [] ?w1)"
  have c1: "snd (add_constraints [1] ?w) = None" by (simp add: exec_defs2)
  then have a: "add_constraints [1] ?w = (?w1, None)" by (simp add: prod_eq_iff)
  have c11: "snd (add_sos_constraints [4] ?w) = None" by (simp add: exec_defs2)
  then have b: "add_sos_constraints [4] ?w = (?s1, None)" by (simp add: prod_eq_iff)
  have c2: "on_record (self ?w1) 1"
    using duplicate_add[where cons="[1]" and w="?w" and ?w1.0="?w1" and c=1] a by simp
  have r4: "on_record (self ?s1) 4"
    using duplicate_add[where cons="[4]" and w="?w" and ?w1.0="?s1" and c=4] b by simp
  have c3: "on_record (self (fst (exec (Do_add_params [8]) ?w1))) 1"
    using duplicate_add[where ?w1.0="?w1" and c=1 and opn="Do_add_params [8]"] c2 by simp
  have first: "add_constraints ([] @ 1 # []) ?w1 = (?w1, Some (ValueError (ConAlreadyAdded 1)))"
    using duplicate_add[where ?w1.0="?w1" and c=1 and pre="[]" and ?w2.0="?w1" and afv="[]"
        and post="[]"] c2
    by simp
  have c4: "snd (add_constraints [1] ?w1) = Some (ValueError (ConAlreadyAdded 1))"
    and c5: "fst (add_constraints [1] ?w1) = ?w1"
    using first by simp_all
  have "snd (add_constraints_loop [9] [] ?w1) = Inr [2]" by (simp add: exec_defs2)
  then have l: "add_constraints_loop [9] [] ?w1 = (?w2, Inr [2])" by (simp add: prod_eq_iff)
  have second: "add_constraints ([9] @ 1 # []) ?w1
     = (?w2, Some (ValueError (ConAlreadyAdded 1)))"
    using duplicate_add[where ?w1.0="?w1" and c=1 and pre="[9]" and ?w2.0="?w2" and afv="[2]"
        and post="[]"] c2 l
    by blast
  then have second': "add_constraints [9, 1] ?w1 = (?w2, Some (ValueError (ConAlreadyAdded 1)))"
    by simp
  have c6: "snd (add_constraints [9, 1] ?w1) = Some (ValueError (ConAlreadyAdded 1))"
    unfolding second' by simp
  have e: "on_record (self ?w2) 9" "\<not> var_fixed (heap ?w2) 2"
    "calls ?w2 = [Add_variables [2, 3], Add_constraints [1], Add_variables []]"
    by (simp_all add: exec_defs2 on_record_def)
  have c7: "on_record (self (fst (add_constraints [9, 1] ?w1))) 9"
    and c9: "\<not> var_fixed (heap (fst (add_constraints [9, 1] ?w1))) 2"
    and c10: "calls (fst (add_constraints [9, 1] ?w1))
       = [Add_variables [2, 3], Add_constraints [1], Add_variables []]"
    unfolding second' using e by simp_all
  have c8: "var_fixed (heap ?w1) 2" by (simp add: exec_defs2)
  have sos: "add_sos_constraints ([] @ 4 # []) ?s1 = (?s1, Some (ValueError (ConAlreadyAdded 4)))"
    using duplicate_add[where ?w1.0="?s1" and c=4 and pre="[]" and ?w2.0="?s1" and post="[]"] r4
    by simp
  then have c12: "snd (add_sos_constraints [4] ?s1) = Some (ValueError (ConAlreadyAdded 4))"
    by simp
  show ?thesis
    by (intro conjI) (rule c1 c2 c3 c4 c5 c6 c7 c8 c9 c10 c11 c12)+
qed

text \<open>
  C6 as stated fails for parameters: the mutable parameter 8 is added twice, the second
  \<open>add_params\<close> returns normally and the backend is asked to add it again.
\<close>

theorem duplicate_add_params_counterexample:
  "snd (add_params [8] (start (config_all False) small_model)) = None \<and>
   snd (add_params [8] (fst (add_params [8] (start (config_all False) small_model)))) = None \<and>
   params (self (fst (add_params [8] (fst (add_params [8]
      (start (config_all False) small_model)))))) = [8] \<and>
   calls (fst (add_params [8] (fst (add_params [8] (start (config_all False) small_model)))))
     = [Add_params [8], Add_params [8]]"
  by (simp add: exec_defs2)

subsection \<open>Removing: the backend first\<close>

lemma calls_extend_stable:
  "calls_stable (calls_extend cs)" "heap_stable (calls_extend cs)"
  "add_stable (calls_extend cs) con" "remove_stable (calls_extend cs) con"
  "objective_stable (calls_extend cs)" "params_stable (calls_extend cs)"
  "vars_add_stable (calls_extend cs)" "vars_remove_stable (calls_extend cs)"
  by (auto simp: stable_defs prim_defs calls_extend_def split: option.splits)

lemma backend_then_loop_calls:
  assumes "\<And>x. preserves (calls_extend (calls w @ [c])) (body x)"
  shows "calls_extend (calls w @ [c]) (fst (run [backend c, for_each body xs] w))"
proof -
  have "calls_extend (calls w @ [c]) (fst (backend c w))"
    by (simp add: backend_def calls_extend_def)
  moreover have "preserves (calls_extend (calls w @ [c])) (for_each body xs)"
    by (rule preserves_for_each) (rule assms)
  ultimately show ?thesis
    by (cases "backend c w") (auto simp: run.simps split: option.splits dest: preservesD)
qed

lemma backend_then_loop_error:
  assumes "snd (run [backend c, for_each body xs] w) = Some e"
    and "\<And>x w. snd (body x w) = None \<Longrightarrow> Q x (fst (body x w))"
    and "\<And>x y. preserves (Q x) (body y)"
  shows "(raises w (calls w) c \<and> e = BackendError \<and>
          fst (run [backend c, for_each body xs] w) = w\<lparr>calls := calls w @ [c]\<rparr>) \<or>
         (\<exists>pre x post w1. xs = pre @ x # post \<and>
            for_each body pre (w\<lparr>calls := calls w @ [c]\<rparr>) = (w1, None) \<and>
            body x w1 = (fst (run [backend c, for_each body xs] w), Some e) \<and>
            (\<forall>d\<in>set pre. Q d (fst (run [backend c, for_each body xs] w))))"
proof (cases "raises w (calls w) c")
  case True
  then show ?thesis using assms(1) by (simp add: run.simps backend_def)
next
  case False
  let ?w = "w\<lparr>calls := calls w @ [c]\<rparr>"
  have eq: "run [backend c, for_each body xs] w = for_each body xs ?w"
    using False by (simp add: run.simps backend_def)
  from assms(1) have "snd (for_each body xs ?w) = Some e" by (simp add: eq)
  from for_each_error[OF this] obtain pre x post w1 where
    xs: "xs = pre @ x # post" and pre: "for_each body pre ?w = (w1, None)"
    and x: "body x w1 = (fst (for_each body xs ?w), Some e)" by blast
  have "\<forall>d\<in>set pre. Q d (fst (for_each body pre ?w))"
    by (rule for_each_success_all) (simp_all add: pre assms(2,3))
  then have "\<forall>d\<in>set pre. Q d w1" by (simp add: pre)
  then have "\<forall>d\<in>set pre. Q d (fst (body x w1))"
    using assms(3) by (auto dest: preservesD)
  then have q: "\<forall>d\<in>set pre. Q d (fst (run [backend c, for_each body xs] w))"
    using x by (simp add: eq)
  have x': "body x w1 = (fst (run [backend c, for_each body xs] w), Some e)"
    using x unfolding eq .
  from xs pre x' q show ?thesis by blast
qed

lemma del_item_success:
  "snd (del_item fld upd k w) = None \<Longrightarrow> k \<in> set (keys (fld (self w))) \<and>
     fst (del_item fld upd k w) = w\<lparr>self := upd (AList.delete k) (self w)\<rparr>"
  by (auto simp: del_item_def modify_def raise_def split: if_splits)

lemma absent_remove_stable:
  "remove_stable (\<lambda>w. d \<notin> set (keys (active_constraints (self w)))) con"
  "remove_stable (\<lambda>w. d \<notin> set (keys (named_expressions (self w)))) con"
  "con \<noteq> d \<Longrightarrow> remove_stable (\<lambda>w. d \<notin> set (keys (vars_referenced_by_con (self w)))) con"
  by (auto simp: stable_defs prim_defs keys_delete keys_update split: option.splits)

lemma absent_vars_remove_stable:
  "vars_remove_stable (\<lambda>w. d \<notin> set (keys (active_constraints (self w))))"
  "vars_remove_stable (\<lambda>w. d \<notin> set (keys (named_expressions (self w))))"
  "vars_remove_stable (\<lambda>w. d \<notin> set (keys (vars_referenced_by_con (self w))))"
  by (auto simp: stable_defs prim_defs split: option.splits)

lemma absent_kept:
  "preserves (\<lambda>w. d \<notin> set (keys (active_constraints (self w))))
     (del_item named_expressions named_expressions_update k)"
  "preserves (\<lambda>w. d \<notin> set (keys (active_constraints (self w))))
     (del_item vars_referenced_by_con vars_referenced_by_con_update k)"
  "preserves (\<lambda>w. d \<notin> set (keys (active_constraints (self w))))
     (modify (external_functions_update g))"
  "preserves (\<lambda>w. d \<notin> set (keys (named_expressions (self w))))
     (del_item vars_referenced_by_con vars_referenced_by_con_update k)"
  "preserves (\<lambda>w. d \<notin> set (keys (named_expressions (self w))))
     (modify (external_functions_update g))"
  by (simp_all add: prim_defs)

lemma forgotten_conj:
  "forgotten (self w) d \<longleftrightarrow>
     d \<notin> set (keys (active_constraints (self w))) \<and>
     d \<notin> set (keys (named_expressions (self w))) \<and>
     d \<notin> set (keys (vars_referenced_by_con (self w)))"
  by (simp add: forgotten_def)

lemma preserves_conj:
  "preserves P f \<Longrightarrow> preserves Q f \<Longrightarrow> preserves (\<lambda>w. P w \<and> Q w) f"
  by (simp add: preserves_def)

text \<open>A constraint without a stored object is not removed: the body of the loop raises.\<close>

lemma absent_object_kept:
  "preserves (\<lambda>w. d \<notin> set (keys (vars_referenced_by_con (self w))))
     (remove_constraints_body con)"
  "preserves (\<lambda>w. d \<notin> set (keys (vars_referenced_by_con (self w))))
     (remove_sos_constraints_body con)"
proof -
  let ?P = "\<lambda>w. d \<notin> set (keys (vars_referenced_by_con (self w)))"
  have same: "?P w \<Longrightarrow> fst (remove_constraints_body d w) = w"
    "?P w \<Longrightarrow> fst (remove_sos_constraints_body d w) = w" for w
    by (simp_all add: remove_constraints_body_def remove_sos_constraints_body_def raise_def
        map_of_keys[symmetric])
  show "preserves ?P (remove_constraints_body con)"
  proof (cases "con = d")
    case True
    then show ?thesis using same(1) by (simp add: preserves_def)
  next
    case False
    then show ?thesis
      by (intro preserves_remove_constraints_body absent_remove_stable(3)
          preserves_check_to_remove_vars absent_vars_remove_stable)
  qed
  show "preserves ?P (remove_sos_constraints_body con)"
  proof (cases "con = d")
    case True
    then show ?thesis using same(2) by (simp add: preserves_def)
  next
    case False
    then show ?thesis
      by (intro preserves_remove_sos_constraints_body absent_remove_stable(3)
          preserves_check_to_remove_vars absent_vars_remove_stable)
  qed
qed

lemma forgotten_kept_remove_constraints_body:
  "preserves (\<lambda>w. forgotten (self w) d) (remove_constraints_body con)"
  unfolding forgotten_conj
  by (intro preserves_conj absent_object_kept)
    (intro preserves_remove_constraints_body absent_remove_stable(1,2)
      preserves_check_to_remove_vars absent_vars_remove_stable)+

lemma forgotten_kept_remove_sos_constraints_body:
  "preserves (\<lambda>w. forgotten (self w) d) (remove_sos_constraints_body con)"
  unfolding forgotten_conj
  by (intro preserves_conj absent_object_kept)
    (intro preserves_remove_sos_constraints_body absent_remove_stable(1,2)
      preserves_check_to_remove_vars absent_vars_remove_stable)+

lemma remove_constraints_body_forgets:
  assumes "snd (remove_constraints_body con w) = None"
  shows "forgotten (self (fst (remove_constraints_body con w))) con"
proof -
  from assms obtain vs where vs: "map_of (vars_referenced_by_con (self w)) con = Some vs"
    and inn: "con \<in> set (keys (named_expressions (self w)))"
    by (cases "map_of (vars_referenced_by_con (self w)) con")
      (auto simp: remove_constraints_body_def raise_def split: if_splits)
  let ?a = "walk con vs (unlink_con con)"
  let ?b = "only_if (\<not> only_child_vars (self w)) (check_to_remove_vars_of con)"
  let ?c = "del_item active_constraints active_constraints_update con"
  let ?d = "del_item named_expressions named_expressions_update con"
  let ?e = "modify (external_functions_update (AList.delete con))"
  let ?f = "del_item vars_referenced_by_con vars_referenced_by_con_update con"
  have eq: "remove_constraints_body con w = run [?a, ?b, ?c, ?d, ?e, ?f] w"
    using vs inn by (simp add: remove_constraints_body_def)
  have s1: "snd (run ([?a, ?b] @ ?c # [?d, ?e, ?f]) w) = None" using assms eq by simp
  have s2: "snd (run ([?a, ?b, ?c] @ ?d # [?e, ?f]) w) = None" using assms eq by simp
  have s3: "snd (run ([?a, ?b, ?c, ?d, ?e] @ ?f # []) w) = None" using assms eq by simp
  have "con \<notin> set (keys (active_constraints (self (fst (run ([?a, ?b] @ ?c # [?d, ?e, ?f]) w)))))"
    by (rule run_establishes[OF s1])
      (auto dest!: del_item_success simp: keys_delete
        intro!: preserves_run_Cons preserves_run_Nil absent_kept)
  moreover
  have "con \<notin> set (keys (named_expressions (self (fst (run ([?a, ?b, ?c] @ ?d # [?e, ?f]) w)))))"
    by (rule run_establishes[OF s2])
      (auto dest!: del_item_success simp: keys_delete
        intro!: preserves_run_Cons preserves_run_Nil absent_kept)
  moreover
  have "con \<notin> set (keys (vars_referenced_by_con
           (self (fst (run ([?a, ?b, ?c, ?d, ?e] @ ?f # []) w)))))"
    by (rule run_establishes[OF s3])
      (auto dest!: del_item_success simp: keys_delete
        intro!: preserves_run_Cons preserves_run_Nil absent_kept)
  ultimately show ?thesis by (simp add: eq forgotten_def)
qed

lemma remove_sos_constraints_body_forgets:
  assumes "snd (remove_sos_constraints_body con w) = None"
  shows "forgotten (self (fst (remove_sos_constraints_body con w))) con"
proof -
  from assms obtain vs where vs: "map_of (vars_referenced_by_con (self w)) con = Some vs"
    by (cases "map_of (vars_referenced_by_con (self w)) con")
      (auto simp: remove_sos_constraints_body_def raise_def)
  let ?a = "walk con vs (unlink_sos con)"
  let ?b = "check_to_remove_vars_of con"
  let ?c = "del_item active_constraints active_constraints_update con"
  let ?d = "del_item named_expressions named_expressions_update con"
  let ?f = "del_item vars_referenced_by_con vars_referenced_by_con_update con"
  have eq: "remove_sos_constraints_body con w = run [?a, ?b, ?c, ?d, ?f] w"
    using vs by (simp add: remove_sos_constraints_body_def)
  have s1: "snd (run ([?a, ?b] @ ?c # [?d, ?f]) w) = None" using assms eq by simp
  have s2: "snd (run ([?a, ?b, ?c] @ ?d # [?f]) w) = None" using assms eq by simp
  have s3: "snd (run ([?a, ?b, ?c, ?d] @ ?f # []) w) = None" using assms eq by simp
  have "con \<notin> set (keys (active_constraints (self (fst (run ([?a, ?b] @ ?c # [?d, ?f]) w)))))"
    by (rule run_establishes[OF s1])
      (auto dest!: del_item_success simp: keys_delete
        intro!: preserves_run_Cons preserves_run_Nil absent_kept)
  moreover
  have "con \<notin> set (keys (named_expressions (self (fst (run ([?a, ?b, ?c] @ ?d # [?f]) w)))))"
    by (rule run_establishes[OF s2])
      (auto dest!: del_item_success simp: keys_delete
        intro!: preserves_run_Cons preserves_run_Nil absent_kept)
  moreover
  have "con \<notin> set (keys (vars_referenced_by_con
           (self (fst (run ([?a, ?b, ?c, ?d] @ ?f # []) w)))))"
    by (rule run_establishes[OF s3])
      (auto dest!: del_item_success simp: keys_delete
        intro!: preserves_run_Cons preserves_run_Nil absent_kept)
  ultimately show ?thesis by (simp add: eq forgotten_def)
qed

lemma remove_variables_body_forgets:
  "snd (remove_variables_body v w) = None \<Longrightarrow>
   var_forgotten (self (fst (remove_variables_body v w))) v"
  by (auto simp: remove_variables_body_def var_forgotten_def del_item_def modify_def raise_def
      run.simps keys_delete split: option.splits if_splits)

lemma var_forgotten_kept:
  "preserves (\<lambda>w. var_forgotten (self w) v) (remove_variables_body u)"
  by (auto simp: preserves_def remove_variables_body_def var_forgotten_def del_item_def
      modify_def raise_def run.simps keys_delete split: option.splits if_splits)

text \<open>
  C10. \<open>remove_constraints\<close>, \<open>remove_sos_constraints\<close> and \<open>remove_variables\<close> call the
  backend with the whole list before they look at any entity: the first backend call each of
  them makes is the removal of the whole list, and when one of them raises, either the backend
  call itself raised, or the loop raised at one entity of the list, and then no registry has
  an entry any more for the entities before it in the list.
\<close>

theorem removal_requested_first:
  "calls_extend (calls w @ [Remove_constraints cons]) (fst (remove_constraints cons w)) \<and>
   calls_extend (calls w @ [Remove_sos_constraints cons]) (fst (remove_sos_constraints cons w)) \<and>
   calls_extend (calls w @ [Remove_variables vs]) (fst (remove_variables vs w)) \<and>
   (snd (remove_constraints cons w) = Some e \<longrightarrow>
      (raises w (calls w) (Remove_constraints cons) \<and> e = BackendError \<and>
       fst (remove_constraints cons w) = w\<lparr>calls := calls w @ [Remove_constraints cons]\<rparr>) \<or>
      (\<exists>pre con post w1. cons = pre @ con # post \<and>
         for_each remove_constraints_body pre (w\<lparr>calls := calls w @ [Remove_constraints cons]\<rparr>)
           = (w1, None) \<and>
         remove_constraints_body con w1 = (fst (remove_constraints cons w), Some e) \<and>
         (\<forall>d\<in>set pre. forgotten (self (fst (remove_constraints cons w))) d))) \<and>
   (snd (remove_sos_constraints cons w) = Some e \<longrightarrow>
      (raises w (calls w) (Remove_sos_constraints cons) \<and> e = BackendError \<and>
       fst (remove_sos_constraints cons w)
         = w\<lparr>calls := calls w @ [Remove_sos_constraints cons]\<rparr>) \<or>
      (\<exists>pre con post w1. cons = pre @ con # post \<and>
         for_each remove_sos_constraints_body pre
           (w\<lparr>calls := calls w @ [Remove_sos_constraints cons]\<rparr>) = (w1, None) \<and>
         remove_sos_constraints_body con w1 = (fst (remove_sos_constraints cons w), Some e) \<and>
         (\<forall>d\<in>set pre. forgotten (self (fst (remove_sos_constraints cons w))) d))) \<and>
   (snd (remove_variables vs w) = Some e \<longrightarrow>
      (raises w (calls w) (Remove_variables vs) \<and> e = BackendError \<and>
       fst (remove_variables vs w) = w\<lparr>calls := calls w @ [Remove_variables vs]\<rparr>) \<or>
      (\<exists>pre v post w1. vs = pre @ v # post \<and>
         for_each remove_variables_body pre (w\<lparr>calls := calls w @ [Remove_variables vs]\<rparr>)
           = (w1, None) \<and>
         remove_variables_body v w1 = (fst (remove_variables vs w), Some e) \<and>
         (\<forall>d\<in>set pre. var_forgotten (self (fst (remove_variables vs w))) d)))"
proof -
  note cs = calls_extend_stable
  have c1: "calls_extend (calls w @ [Remove_constraints cons]) (fst (remove_constraints cons w))"
    unfolding remove_constraints_def
    by (intro backend_then_loop_calls preserves_remove_constraints_body
        preserves_check_to_remove_vars cs)
  have c2: "calls_extend (calls w @ [Remove_sos_constraints cons])
              (fst (remove_sos_constraints cons w))"
    unfolding remove_sos_constraints_def
    by (intro backend_then_loop_calls preserves_remove_sos_constraints_body
        preserves_check_to_remove_vars cs)
  have c3: "calls_extend (calls w @ [Remove_variables vs]) (fst (remove_variables vs w))"
    unfolding remove_variables_def
    using cs(8)[of "calls w @ [Remove_variables vs]"]
    by (intro backend_then_loop_calls) (simp add: vars_remove_stable_def)
  have e1: "snd (remove_constraints cons w) = Some e \<longrightarrow>
      (raises w (calls w) (Remove_constraints cons) \<and> e = BackendError \<and>
       fst (remove_constraints cons w) = w\<lparr>calls := calls w @ [Remove_constraints cons]\<rparr>) \<or>
      (\<exists>pre con post w1. cons = pre @ con # post \<and>
         for_each remove_constraints_body pre (w\<lparr>calls := calls w @ [Remove_constraints cons]\<rparr>)
           = (w1, None) \<and>
         remove_constraints_body con w1 = (fst (remove_constraints cons w), Some e) \<and>
         (\<forall>d\<in>set pre. forgotten (self (fst (remove_constraints cons w))) d))"
    unfolding remove_constraints_def
    by (intro impI backend_then_loop_error[where Q="\<lambda>d w. forgotten (self w) d"]
        remove_constraints_body_forgets forgotten_kept_remove_constraints_body)
  have e2: "snd (remove_sos_constraints cons w) = Some e \<longrightarrow>
      (raises w (calls w) (Remove_sos_constraints cons) \<and> e = BackendError \<and>
       fst (remove_sos_constraints cons w)
         = w\<lparr>calls := calls w @ [Remove_sos_constraints cons]\<rparr>) \<or>
      (\<exists>pre con post w1. cons = pre @ con # post \<and>
         for_each remove_sos_constraints_body pre
           (w\<lparr>calls := calls w @ [Remove_sos_constraints cons]\<rparr>) = (w1, None) \<and>
         remove_sos_constraints_body con w1 = (fst (remove_sos_constraints cons w), Some e) \<and>
         (\<forall>d\<in>set pre. forgotten (self (fst (remove_sos_constraints cons w))) d))"
    unfolding remove_sos_constraints_def
    by (intro impI backend_then_loop_error[where Q="\<lambda>d w. forgotten (self w) d"]
        remove_sos_constraints_body_forgets forgotten_kept_remove_sos_constraints_body)
  have e3: "snd (remove_variables vs w) = Some e \<longrightarrow>
      (raises w (calls w) (Remove_variables vs) \<and> e = BackendError \<and>
       fst (remove_variables vs w) = w\<lparr>calls := calls w @ [Remove_variables vs]\<rparr>) \<or>
      (\<exists>pre v post w1. vs = pre @ v # post \<and>
         for_each remove_variables_body pre (w\<lparr>calls := calls w @ [Remove_variables vs]\<rparr>)
           = (w1, None) \<and>
         remove_variables_body v w1 = (fst (remove_variables vs w), Some e) \<and>
         (\<forall>d\<in>set pre. var_forgotten (self (fst (remove_variables vs w))) d))"
    unfolding remove_variables_def
    by (intro impI backend_then_loop_error[where Q="\<lambda>d w. var_forgotten (self w) d"]
        remove_variables_body_forgets var_forgotten_kept)
  from c1 c2 c3 e1 e2 e3 show ?thesis by blast
qed

theorem removal_requested_first_witness:
  "snd (remove_constraints [1, 9] (fst (add_constraints [1] (start (config_all False) small_model))))
     = Some (ValueError (ConNotAdded 9)) \<and>
   calls_extend
     (calls (fst (add_constraints [1] (start (config_all False) small_model)))
        @ [Remove_constraints [1, 9]])
     (fst (remove_constraints [1, 9]
        (fst (add_constraints [1] (start (config_all False) small_model))))) \<and>
   calls (fst (remove_constraints [1, 9]
        (fst (add_constraints [1] (start (config_all False) small_model)))))
     = [Add_variables [2, 3], Add_constraints [1], Remove_constraints [1, 9],
        Remove_variables [2, 3]] \<and>
   forgotten (self (fst (remove_constraints [1, 9]
        (fst (add_constraints [1] (start (config_all False) small_model)))))) 1"
proof -
  define w where "w = fst (add_constraints [1] (start (config_all False) small_model))"
  have a: "snd (remove_constraints [1, 9] w) = Some (ValueError (ConNotAdded 9))"
    by (simp add: w_def exec_defs2)
  have b: "calls (fst (remove_constraints [1, 9] w))
     = [Add_variables [2, 3], Add_constraints [1], Remove_constraints [1, 9],
        Remove_variables [2, 3]]"
    by (simp add: w_def exec_defs2)
  have c: "forgotten (self (fst (remove_constraints [1, 9] w))) 1"
    by (simp add: w_def exec_defs2 forgotten_def)
  from removal_requested_first[of w "[1, 9]" "[]" "ValueError (ConNotAdded 9)"]
  have "calls_extend (calls w @ [Remove_constraints [1, 9]]) (fst (remove_constraints [1, 9] w))"
    by blast
  with a b c show ?thesis unfolding w_def by simp
qed

subsection \<open>Fixed variables around \<open>add_constraints\<close>\<close>

lemma run_append:
  "run (fs @ gs) w = (case run fs w of (w', None) \<Rightarrow> run gs w' | (w', Some e) \<Rightarrow> (w', Some e))"
proof (induction fs arbitrary: w)
  case Nil
  show ?case by (simp add: run.simps)
next
  case (Cons f fs)
  show ?case by (cases "f w") (auto simp: run.simps Cons split: option.splits)
qed

lemma run_append_success:
  "run (fs @ gs) w = (w', None) \<longleftrightarrow> (\<exists>w1. run fs w = (w1, None) \<and> run gs w1 = (w', None))"
  by (cases "run fs w") (auto simp: run_append split: option.splits)

lemma for_each_modify_heap:
  "for_each (\<lambda>x. modify_heap (g x)) xs w = (w\<lparr>heap := fold g xs (heap w)\<rparr>, None)"
  by (induction xs arbitrary: w) (simp_all add: modify_heap_def)

lemma fold_var_unfix:
  "fold var_unfix vs h = h\<lparr>var_fixed := (\<lambda>v. var_fixed h v \<and> v \<notin> set vs)\<rparr>"
proof (induction vs arbitrary: h)
  case Nil
  show ?case by simp
next
  case (Cons a vs)
  have g: "(\<lambda>v. var_fixed (var_unfix a h) v \<and> v \<notin> set vs) = (\<lambda>v. var_fixed h v \<and> v \<notin> set (a # vs))"
    by (auto simp: var_unfix_def)
  have "fold var_unfix (a # vs) h = fold var_unfix vs (var_unfix a h)" by simp
  also have "\<dots> = (var_unfix a h)\<lparr>var_fixed := (\<lambda>v. var_fixed (var_unfix a h) v \<and> v \<notin> set vs)\<rparr>"
    by (rule Cons)
  also have "\<dots> = (var_unfix a h)\<lparr>var_fixed := (\<lambda>v. var_fixed h v \<and> v \<notin> set (a # vs))\<rparr>"
    by (simp only: g)
  also have "\<dots> = h\<lparr>var_fixed := (\<lambda>v. var_fixed h v \<and> v \<notin> set (a # vs))\<rparr>"
    by (simp add: var_unfix_def)
  finally show ?case .
qed

lemma fold_var_fix:
  "fold var_fix vs h = h\<lparr>var_fixed := (\<lambda>v. var_fixed h v \<or> v \<in> set vs)\<rparr>"
proof (induction vs arbitrary: h)
  case Nil
  show ?case by simp
next
  case (Cons a vs)
  have g: "(\<lambda>v. var_fixed (var_fix a h) v \<or> v \<in> set vs) = (\<lambda>v. var_fixed h v \<or> v \<in> set (a # vs))"
    by (auto simp: var_fix_def)
  have "fold var_fix (a # vs) h = fold var_fix vs (var_fix a h)" by simp
  also have "\<dots> = (var_fix a h)\<lparr>var_fixed := (\<lambda>v. var_fixed (var_fix a h) v \<or> v \<in> set vs)\<rparr>"
    by (rule Cons)
  also have "\<dots> = (var_fix a h)\<lparr>var_fixed := (\<lambda>v. var_fixed h v \<or> v \<in> set (a # vs))\<rparr>"
    by (simp only: g)
  also have "\<dots> = h\<lparr>var_fixed := (\<lambda>v. var_fixed h v \<or> v \<in> set (a # vs))\<rparr>"
    by (simp add: var_fix_def)
  finally show ?case .
qed

lemma heap_is_stable:
  "add_stable (\<lambda>w. heap w = h) con" "remove_stable (\<lambda>w. heap w = h) con"
  "vars_add_stable (\<lambda>w. heap w = h)" "vars_remove_stable (\<lambda>w. heap w = h)"
  "calls_stable (\<lambda>w. heap w = h)" "params_stable (\<lambda>w. heap w = h)"
  by (auto simp: stable_defs prim_defs split: option.splits)

lemma collected_fixed_vars_are_fixed:
  "collect_vars_and_named_exprs h e = (ne, vs, fv, ef) \<Longrightarrow> v \<in> set fv \<Longrightarrow> var_fixed h v"
  unfolding collect_vars_and_named_exprs_eq by (auto simp: ids_where_def)

lemma add_constraints_body_heap:
  assumes "add_constraints_body con afv w = (w1, Inr afv')"
    and "unfixed_only h0 afv (heap w)"
  shows "unfixed_only h0 afv' (heap w1)"
proof -
  have new: "con \<notin> set (keys (named_expressions (self w)))"
    using assms(1) by (auto simp: add_constraints_body_def split: if_splits)
  obtain ne vs fv ef where
    c: "collect_vars_and_named_exprs (heap w) (con_body (heap w) con) = (ne, vs, fv, ef)"
    by (cases "collect_vars_and_named_exprs (heap w) (con_body (heap w) con)") auto
  let ?unfixing = "\<not> treat_fixed_vars_as_params (update_config (self w))"
  let ?pre = "[modify (active_constraints_update
                 (AList.update con (Some (con_lower (heap w) con, con_body (heap w) con,
                                          con_upper (heap w) con)))),
               only_if (\<not> only_child_vars (self w)) (check_for_new_vars vs),
               modify (named_expressions_update
                 (AList.update con (map (\<lambda>e. (e, named_expr (heap w) e)) ne))),
               only_if (ef \<noteq> [])
                 (modify (external_functions_update (AList.update con ef))),
               modify (vars_referenced_by_con_update (AList.update con (List_of vs))),
               for_each (link_con con) vs]"
  let ?last = "only_if ?unfixing (for_each (\<lambda>v. modify_heap (var_unfix v)) fv)"
  have run: "run (?pre @ [?last]) w = (w1, None)"
    and afv': "afv' = (if ?unfixing then fold dict_add fv afv else afv)"
    using assms(1) new c
    by (cases "run (?pre @ [?last]) w";
        auto simp: add_constraints_body_def Let_def split: option.splits)+
  from run obtain w6 where pre: "run ?pre w = (w6, None)" and last: "?last w6 = (w1, None)"
    unfolding run_append_success by (auto simp: run.simps split: prod.splits option.splits)
  have "preserves (\<lambda>w'. heap w' = heap w) (run ?pre)"
    using heap_is_stable(1)[of "heap w" con] unfolding add_stable_def
    by (intro preserves_run_Cons preserves_run_Nil preserves_for_each preserves_only_if
        preserves_check_for_new_vars heap_is_stable) simp_all
  then have h6: "heap w6 = heap w" using pre by (auto dest: preservesD)
  have fixed: "\<forall>v\<in>set fv. var_fixed (heap w) v"
    using collected_fixed_vars_are_fixed[OF c] by blast
  show ?thesis
  proof (cases ?unfixing)
    case False
    then show ?thesis using last afv' assms(2) h6 by (simp add: only_if_def skip_def)
  next
    case True
    then have h1: "heap w1 = fold var_unfix fv (heap w)"
      using last h6 by (auto simp: only_if_def for_each_modify_heap)
    have hw: "heap w = h0\<lparr>var_fixed := (\<lambda>v. var_fixed h0 v \<and> v \<notin> set afv)\<rparr>"
      and fa: "\<forall>v\<in>set afv. var_fixed h0 v"
      using assms(2) by (simp_all add: unfixed_only_def)
    have f0: "\<forall>v\<in>set fv. var_fixed h0 v"
      using fixed by (subst (asm) hw) simp
    have "(\<lambda>v. (var_fixed h0 v \<and> v \<notin> set afv) \<and> v \<notin> set fv)
          = (\<lambda>v. var_fixed h0 v \<and> v \<notin> set (fold dict_add fv afv))"
      by auto
    then have "heap w1 = h0\<lparr>var_fixed := (\<lambda>v. var_fixed h0 v \<and> v \<notin> set (fold dict_add fv afv))\<rparr>"
      unfolding h1 fold_var_unfix by (subst hw, subst hw) simp
    then show ?thesis using True afv' fa f0 by (auto simp: unfixed_only_def)
  qed
qed

lemma add_constraints_loop_heap:
  "add_constraints_loop cons afv w = (w1, Inr afv') \<Longrightarrow> unfixed_only h0 afv (heap w) \<Longrightarrow>
   unfixed_only h0 afv' (heap w1)"
proof (induction cons arbitrary: afv w)
  case Nil
  then show ?case by simp
next
  case (Cons con cons)
  from Cons.prems(1) obtain w2 afv2 where
    b: "add_constraints_body con afv w = (w2, Inr afv2)"
    and l: "add_constraints_loop cons afv2 w2 = (w1, Inr afv')"
    by (auto split: prod.splits sum.splits)
  show ?case
    by (rule Cons.IH[OF l]) (rule add_constraints_body_heap[OF b Cons.prems(2)])
qed

lemma attributes_stable:
  "heap_stable (\<lambda>w. \<exists>f. heap w = h\<lparr>var_fixed := f\<rparr>)"
  "add_stable (\<lambda>w. \<exists>f. heap w = h\<lparr>var_fixed := f\<rparr>) con"
  "vars_add_stable (\<lambda>w. \<exists>f. heap w = h\<lparr>var_fixed := f\<rparr>)"
  "calls_stable (\<lambda>w. \<exists>f. heap w = h\<lparr>var_fixed := f\<rparr>)"
  by (auto simp: stable_defs prim_defs split: option.splits)

text \<open>
  C1 (amended). When \<open>add_constraints\<close> returns normally, the source model is as it was before
  the call: every variable that was fixed is fixed again, with its value. Whether the call
  returns or raises, it changes no attribute of the source model but fixed flags: the value of
  a variable is never touched. (Nothing re-fixes the variables when the call raises.)
\<close>

theorem fixed_variables_after_add_constraints:
  "(add_constraints cons w = (w', None) \<longrightarrow>
      heap w' = heap w \<and>
      (\<forall>v. var_fixed (heap w) v \<longrightarrow> var_fixed (heap w') v \<and> var_val (heap w') v = var_val (heap w) v)) \<and>
   heap (fst (add_constraints cons w))
     = (heap w)\<lparr>var_fixed := var_fixed (heap (fst (add_constraints cons w)))\<rparr>"
proof -
  have success: "heap w' = heap w" if ok: "add_constraints cons w = (w', None)"
  proof -
    from ok obtain w2 afv where
      l: "add_constraints_loop cons [] w = (w2, Inr afv)"
      and r: "run [backend (Add_constraints cons),
                   for_each (\<lambda>v. modify_heap (var_fix v)) afv] w2 = (w', None)"
      by (auto simp: add_constraints_def split: prod.splits sum.splits)
    have "unfixed_only (heap w) [] (heap w)" by (simp add: unfixed_only_def)
    from add_constraints_loop_heap[OF l this]
    have h2: "heap w2 = (heap w)\<lparr>var_fixed := (\<lambda>v. var_fixed (heap w) v \<and> v \<notin> set afv)\<rparr>"
      and fa: "\<forall>v\<in>set afv. var_fixed (heap w) v"
      by (simp_all add: unfixed_only_def)
    from r have "heap w' = fold var_fix afv (heap w2)"
      by (auto simp: run.simps backend_def for_each_modify_heap split: if_splits)
    also have "\<dots> = (heap w)\<lparr>var_fixed := (\<lambda>v. (var_fixed (heap w) v \<and> v \<notin> set afv) \<or> v \<in> set afv)\<rparr>"
      unfolding fold_var_fix by (subst h2, subst h2) simp
    also have "(\<lambda>v. (var_fixed (heap w) v \<and> v \<notin> set afv) \<or> v \<in> set afv) = var_fixed (heap w)"
      using fa by auto
    finally show ?thesis by simp
  qed
  let ?P = "\<lambda>w'. \<exists>f. heap w' = (heap w)\<lparr>var_fixed := f\<rparr>"
  have "preserves ?P (add_constraints cons)"
    by (intro preserves_add_constraints attributes_stable preserves_check_for_new_vars
        calls_stableD)
  moreover have "?P w" by (rule exI[of _ "var_fixed (heap w)"]) simp
  ultimately have "?P (fst (add_constraints cons w))" by (rule preservesD)
  then obtain f where f: "heap (fst (add_constraints cons w)) = (heap w)\<lparr>var_fixed := f\<rparr>" ..
  have "heap (fst (add_constraints cons w))
     = (heap w)\<lparr>var_fixed := var_fixed (heap (fst (add_constraints cons w)))\<rparr>"
    by (subst f, subst f) simp
  with success show ?thesis by auto
qed

theorem fixed_variables_after_add_constraints_witness:
  "snd (add_constraints [1] (start (config_all False) small_model)) = None \<and>
   var_fixed (heap (start (config_all False) small_model)) 2 \<and>
   var_fixed (heap (fst (add_constraints [1] (start (config_all False) small_model)))) 2 \<and>
   var_val (heap (fst (add_constraints [1] (start (config_all False) small_model)))) 2 = Some 3 \<and>
   heap (fst (add_constraints [1] (start (config_all False) small_model)))
     = heap (start (config_all False) small_model)"
proof -
  let ?w = "start (config_all False) small_model"
  have a: "add_constraints [1] ?w = (fst (add_constraints [1] ?w), None)"
    by (rule prod_eqI) (simp_all add: exec_defs2)
  have b: "var_fixed (heap ?w) 2" "var_val (heap ?w) 2 = Some 3"
    by (simp_all add: exec_defs2)
  from fixed_variables_after_add_constraints[of "[1]" ?w "fst (add_constraints [1] ?w)"] a
  have "heap (fst (add_constraints [1] ?w)) = heap ?w" by blast
  with a b show ?thesis by (metis snd_conv)
qed

text \<open>
  C1 as stated fails when the backend raises: the constraint 1 contains the fixed variable 2,
  \<open>treat_fixed_vars_as_params\<close> is off, the backend's \<open>_add_constraints\<close> raises, and the
  variable is left unfixed.
\<close>

theorem fixed_variable_left_unfixed_counterexample:
  "\<not> treat_fixed_vars_as_params (update_config (self (start (config_all False) small_model))) \<and>
   var_fixed (heap (start (config_all False) small_model)) 2 \<and>
   snd (add_constraints [1]
     ((start (config_all False) small_model)\<lparr>raises := (\<lambda>cs c. c = Add_constraints [1])\<rparr>))
     = Some BackendError \<and>
   \<not> var_fixed (heap (fst (add_constraints [1]
     ((start (config_all False) small_model)\<lparr>raises := (\<lambda>cs c. c = Add_constraints [1])\<rparr>)))) 2"
  by (simp add: exec_defs2)

subsection \<open>The steps of a synchronization pass that returns\<close>

lemma readingE:
  assumes "reading r k w = (w', None)"
  obtains x where "r w = Inr x" and "k x w = (w', None)"
  using assms by (cases "r w") (auto simp: reading_def)

lemma run_ConsE:
  assumes "run (f # fs) w = (w', None)"
  obtains w1 where "f w = (w1, None)" and "run fs w1 = (w', None)"
  using assms unfolding run_Cons_success by blast

lemma run_NilE:
  assumes "run [] w = (w', None)"
  obtains "w' = w"
  using assms by (simp add: run.simps)

lemma update_successE:
  assumes "update w = (w', None)"
  obtains d w1 w2 w3 w4 w5 w6 w7 w8 cra1 w9 vtu cra2 need w10 w11 w12 ctu w13 need' pyomo_obj w14
  where "discover w = Inr d"
    and "remove_constraints (old_cons d) w = (w1, None)"
    and "remove_sos_constraints (old_sos d) w1 = (w2, None)"
    and "remove_params (old_params d) w2 = (w3, None)"
    and "only_if (update_params (update_config (self w3))) (backend Update_params) w3 = (w4, None)"
    and "add_params (new_params d) w4 = (w5, None)"
    and "add_variables (new_vars d) w5 = (w6, None)"
    and "add_constraints (new_cons d) w6 = (w7, None)"
    and "add_sos_constraints (new_sos d) w7 = (w8, None)"
    and "diff_constraints d w8 = Inr cra1"
    and "only_if (update_constraints (update_config (self w8)))
           (run [remove_sos_constraints (sos_to_update d),
                 add_sos_constraints (sos_to_update d)]) w8 = (w9, None)"
    and "diff_vars d cra1 w9 = Inr (vtu, cra2, need)"
    and "only_if (update_vars (update_config (self w9))) (update_variables vtu) w9 = (w10, None)"
    and "remove_constraints cra2 w10 = (w11, None)"
    and "add_constraints cra2 w11 = (w12, None)"
    and "diff_named_expressions d w12 = Inr ctu"
    and "only_if (update_named_expressions (update_config (self w12)))
           (run [remove_constraints ctu, add_constraints ctu]) w12 = (w13, None)"
    and "check_objective need w13 = Inr (need', pyomo_obj)"
    and "only_if need' (set_objective pyomo_obj) w13 = (w14, None)"
    and "remove_variables (old_vars d) w14 = (w', None)"
proof -
  from assms obtain d where d: "discover w = Inr d"
    and r1: "run
         [remove_constraints (old_cons d),
          remove_sos_constraints (old_sos d),
          remove_params (old_params d),
          \<lambda>w. only_if (update_params (update_config (self w))) (backend Update_params) w,
          add_params (new_params d),
          add_variables (new_vars d),
          add_constraints (new_cons d),
          add_sos_constraints (new_sos d),
          reading (diff_constraints d) (\<lambda>cons_to_remove_and_add.
            run
              [\<lambda>w. only_if (update_constraints (update_config (self w)))
                      (run [remove_sos_constraints (sos_to_update d),
                            add_sos_constraints (sos_to_update d)]) w,
               reading (diff_vars d cons_to_remove_and_add)
                 (\<lambda>(vars_to_update, cons_to_remove_and_add, need_to_set_objective).
                    run
                      [\<lambda>w. only_if (update_vars (update_config (self w)))
                              (update_variables vars_to_update) w,
                       remove_constraints cons_to_remove_and_add,
                       add_constraints cons_to_remove_and_add,
                       reading (diff_named_expressions d) (\<lambda>cons_to_update.
                         run
                           [\<lambda>w. only_if (update_named_expressions (update_config (self w)))
                                   (run [remove_constraints cons_to_update,
                                         add_constraints cons_to_update]) w,
                            reading (check_objective need_to_set_objective)
                              (\<lambda>(need_to_set_objective, pyomo_obj).
                                 run
                                   [only_if need_to_set_objective (set_objective pyomo_obj),
                                    remove_variables (old_vars d)])])])])] w = (w', None)"
    unfolding update_def by (erule readingE)
  from r1 obtain w1 w2 w3 w4 w5 w6 w7 w8 cra1 where
    s1: "remove_constraints (old_cons d) w = (w1, None)"
      "remove_sos_constraints (old_sos d) w1 = (w2, None)"
      "remove_params (old_params d) w2 = (w3, None)"
      "only_if (update_params (update_config (self w3))) (backend Update_params) w3 = (w4, None)"
      "add_params (new_params d) w4 = (w5, None)"
      "add_variables (new_vars d) w5 = (w6, None)"
      "add_constraints (new_cons d) w6 = (w7, None)"
      "add_sos_constraints (new_sos d) w7 = (w8, None)"
      "diff_constraints d w8 = Inr cra1"
    and r2: "run
              [\<lambda>w. only_if (update_constraints (update_config (self w)))
                      (run [remove_sos_constraints (sos_to_update d),
                            add_sos_constraints (sos_to_update d)]) w,
               reading (diff_vars d cra1)
                 (\<lambda>(vars_to_update, cons_to_remove_and_add, need_to_set_objective).
                    run
                      [\<lambda>w. only_if (update_vars (update_config (self w)))
                              (update_variables vars_to_update) w,
                       remove_constraints cons_to_remove_and_add,
                       add_constraints cons_to_remove_and_add,
                       reading (diff_named_expressions d) (\<lambda>cons_to_update.
                         run
                           [\<lambda>w. only_if (update_named_expressions (update_config (self w)))
                                   (run [remove_constraints cons_to_update,
                                         add_constraints cons_to_update]) w,
                            reading (check_objective need_to_set_objective)
                              (\<lambda>(need_to_set_objective, pyomo_obj).
                                 run
                                   [only_if need_to_set_objective (set_objective pyomo_obj),
                                    remove_variables (old_vars d)])])])] w8 = (w', None)"
    by - (erule run_ConsE, erule run_ConsE, erule run_ConsE, erule run_ConsE, erule run_ConsE, erule run_ConsE, erule run_ConsE, erule run_ConsE, erule run_ConsE, erule run_NilE, erule readingE, hypsubst, blast)
  from r2 obtain w9 x where
    s2: "only_if (update_constraints (update_config (self w8)))
           (run [remove_sos_constraints (sos_to_update d),
                 add_sos_constraints (sos_to_update d)]) w8 = (w9, None)"
      "diff_vars d cra1 w9 = Inr x"
    and r3: "(case x of (vars_to_update, cons_to_remove_and_add, need_to_set_objective) \<Rightarrow>
                    run
                      [\<lambda>w. only_if (update_vars (update_config (self w)))
                              (update_variables vars_to_update) w,
                       remove_constraints cons_to_remove_and_add,
                       add_constraints cons_to_remove_and_add,
                       reading (diff_named_expressions d) (\<lambda>cons_to_update.
                         run
                           [\<lambda>w. only_if (update_named_expressions (update_config (self w)))
                                   (run [remove_constraints cons_to_update,
                                         add_constraints cons_to_update]) w,
                            reading (check_objective need_to_set_objective)
                              (\<lambda>(need_to_set_objective, pyomo_obj).
                                 run
                                   [only_if need_to_set_objective (set_objective pyomo_obj),
                                    remove_variables (old_vars d)])])]) w9 = (w', None)"
    by - (erule run_ConsE, erule run_ConsE, erule run_NilE, erule readingE, hypsubst, blast)
  obtain vtu cra2 need where x: "x = (vtu, cra2, need)" by (cases x) auto
  from r3 obtain w10 w11 w12 ctu w13 y where
    s3: "only_if (update_vars (update_config (self w9))) (update_variables vtu) w9 = (w10, None)"
      "remove_constraints cra2 w10 = (w11, None)"
      "add_constraints cra2 w11 = (w12, None)"
      "diff_named_expressions d w12 = Inr ctu"
      "only_if (update_named_expressions (update_config (self w12)))
           (run [remove_constraints ctu, add_constraints ctu]) w12 = (w13, None)"
      "check_objective need w13 = Inr y"
    and r4: "(case y of (need_to_set_objective, pyomo_obj) \<Rightarrow>
                                 run
                                   [only_if need_to_set_objective (set_objective pyomo_obj),
                                    remove_variables (old_vars d)]) w13 = (w', None)"
    unfolding x prod.case
    by - (erule run_ConsE, erule run_ConsE, erule run_ConsE, erule run_ConsE, erule run_NilE, erule readingE, erule run_ConsE, erule run_ConsE, erule run_NilE, erule readingE, hypsubst, blast)
  obtain need' pyomo_obj where y: "y = (need', pyomo_obj)" by (cases y) auto
  from r4 obtain w14 where
    s4: "only_if need' (set_objective pyomo_obj) w13 = (w14, None)"
      "remove_variables (old_vars d) w14 = (w', None)"
    unfolding y prod.case by - (erule run_ConsE, erule run_ConsE, erule run_NilE, hypsubst, blast)
  show ?thesis
    using d s1 s2[unfolded x] s3[unfolded y] s4 by (rule that)
qed

subsection \<open>Comparing a constraint with its record\<close>

lemma equal_numeric_constants_eq:
  "equal_numeric_constants new_bound bound = numeric_leaves_equal new_bound bound"
  by (cases "(new_bound, bound)" rule: numeric_leaves_equal.cases)
    (simp_all add: equal_numeric_constants_def numeric_constant_value_def
      split: option.splits expr.splits)

lemma to_remove_and_add_iff:
  "to_remove_and_add (lower, body, upper) (new_lower, new_body, new_upper) \<longleftrightarrow>
     id_of new_body \<noteq> id_of body \<or> \<not> bound_unchanged new_lower lower \<or>
     \<not> bound_unchanged new_upper upper"
  by (auto simp: to_remove_and_add_def bound_unchanged_def equal_numeric_constants_eq)

lemma diff_constraints_loop_set:
  "diff_constraints_loop s h cs acc = Inr L \<Longrightarrow>
   set L = set acc \<union>
     {c \<in> set cs. \<exists>recorded. map_of (active_constraints s) c = Some (Some recorded) \<and>
        to_remove_and_add recorded (con_lower h c, con_body h c, con_upper h c)}"
proof (induction cs arbitrary: acc)
  case Nil
  then show ?case by simp
next
  case (Cons c cs)
  from Cons.prems obtain recorded where r: "map_of (active_constraints s) c = Some (Some recorded)"
    by (auto split: option.splits)
  let ?acc = "if to_remove_and_add recorded (con_lower h c, con_body h c, con_upper h c)
              then dict_add c acc else acc"
  have "diff_constraints_loop s h cs ?acc = Inr L" using Cons.prems r by simp
  from Cons.IH[OF this] show ?case using r by (cases recorded) auto
qed

lemma diff_constraints_loop_total:
  "\<forall>c\<in>set cs. \<exists>recorded. map_of (active_constraints s) c = Some (Some recorded) \<Longrightarrow>
   \<exists>L. diff_constraints_loop s h cs acc = Inr L"
  by (induction cs arbitrary: acc) auto

lemmas exec_defs3 =
  exec_defs2 set_instance_def add_block_def remove_block_def get_objective_def discover_def
  discover_vars_def discover_params_def the_model_def diff_constraints_def cons_to_update_def
  sos_to_update_def to_remove_and_add_def equal_numeric_constants_def numeric_constant_value_def
  same_object_def bound_unchanged_def diff_vars_def vars_to_check_def diff_named_expressions_def
  named_expr_changed_def check_objective_def update_def synced_def

subsection \<open>Properties that every operation keeps\<close>

lemma stable_preserves:
  assumes "stable P"
  shows "preserves P (add_variables vs)"
    and "preserves P (remove_variables vs)"
    and "preserves P (check_for_new_vars vs)"
    and "preserves P (check_to_remove_vars vs)"
    and "preserves P (update_variables vs)"
    and "preserves P (add_params ps)"
    and "preserves P (remove_params ps)"
    and "preserves P (add_constraints cs)"
    and "preserves P (remove_constraints cs)"
    and "preserves P (add_sos_constraints cs)"
    and "preserves P (remove_sos_constraints cs)"
    and "preserves P (set_objective ob)"
    and "preserves P (backend c)"
    and "preserves P update"
proof -
  note s = assms[unfolded stable_def]
  have a: "add_stable P con" and r: "remove_stable P con" for con using s by simp_all
  have va: "vars_add_stable P" and vr: "vars_remove_stable P" and h: "heap_stable P"
    and ob: "objective_stable P" and pa: "params_stable P" and c: "calls_stable P"
    using s by simp_all
  have u: "preserves P (modify (vars_update (AList.update v x)))" for v x
    using s by blast
  note b = calls_stableD[OF c]
  show 1: "preserves P (add_variables vs)" for vs by (rule preserves_add_variables[OF va])
  show 2: "preserves P (remove_variables vs)" for vs by (rule preserves_remove_variables[OF vr])
  show 3: "preserves P (check_for_new_vars vs)" for vs
    by (rule preserves_check_for_new_vars[OF va])
  show 4: "preserves P (check_to_remove_vars vs)" for vs
    by (rule preserves_check_to_remove_vars[OF vr])
  show 5: "preserves P (update_variables vs)" for vs
    by (rule preserves_update_variables) (rule u b)+
  show "preserves P (add_params ps)" by (rule preserves_add_params[OF pa c])
  show "preserves P (remove_params ps)" by (rule preserves_remove_params[OF pa c])
  show "preserves P (add_constraints cs)"
    by (rule preserves_add_constraints) (rule a 3 h b)+
  show "preserves P (remove_constraints cs)"
    by (rule preserves_remove_constraints) (rule r 4 b)+
  show "preserves P (add_sos_constraints cs)"
    by (rule preserves_add_sos_constraints) (rule a 3 b)+
  show "preserves P (remove_sos_constraints cs)"
    by (rule preserves_remove_sos_constraints) (rule r 4 b)+
  show "preserves P (set_objective ob)"
    by (rule preserves_set_objective) (rule ob 3 4 h b)+
  show "preserves P (backend c)" by (rule b)
  show "preserves P update"
    by (rule preserves_update) (rule a r 1 2 3 4 h ob pa c | erule preservesD[OF 5])+
qed

lemma stable_conj: "stable P \<Longrightarrow> stable Q \<Longrightarrow> stable (\<lambda>w. P w \<and> Q w)"
  unfolding stable_def stable_defs preserves_def by simp

lemma calls_extend_is_stable: "stable (calls_extend cs)"
  unfolding stable_def using calls_extend_stable
  by (auto simp: prim_defs calls_extend_def)

lemma config_is_stable:
  "stable (\<lambda>w. update_config (self w) = config \<and> only_child_vars (self w) = ocv \<and>
                model (self w) = m \<and> raises w = rs)"
  unfolding stable_def stable_defs
  by (auto simp: prim_defs split: option.splits)

lemma attributes_are_stable: "stable (\<lambda>w. \<exists>f. heap w = h\<lparr>var_fixed := f\<rparr>)"
  unfolding stable_def stable_defs
  by (auto simp: prim_defs split: option.splits)

lemma step_keeps: "preserves P f \<Longrightarrow> f w = (w', r) \<Longrightarrow> P w \<Longrightarrow> P w'"
  by (auto dest: preservesD)

lemma only_if_keeps: "preserves P f \<Longrightarrow> only_if b f w = (w', r) \<Longrightarrow> P w \<Longrightarrow> P w'"
  by (rule step_keeps[OF preserves_only_if])

lemma preserves_run2: "preserves P f \<Longrightarrow> preserves P g \<Longrightarrow> preserves P (run [f, g])"
  by (intro preserves_run_Cons preserves_run_Nil)

subsection \<open>A changed constraint\<close>

lemma classify_old_sets:
  "classify_old h cur_cons cur_sos cs oc os = Inr (oc', os') \<Longrightarrow>
   set oc' \<subseteq> set oc \<union> {c \<in> set cs. c \<notin> set cur_cons \<and> c \<notin> set cur_sos} \<and>
   set os' \<subseteq> set os \<union> {c \<in> set cs. c \<notin> set cur_cons \<and> c \<notin> set cur_sos}"
proof (induction cs arbitrary: oc os)
  case Nil
  then show ?case by auto
next
  case (Cons c cs)
  show ?case
  proof (cases "c \<notin> set cur_cons \<and> c \<notin> set cur_sos")
    case False
    then have "classify_old h cur_cons cur_sos cs oc os = Inr (oc', os')"
      using Cons.prems by auto
    from Cons.IH[OF this] show ?thesis by auto
  next
    case True
    show ?thesis
    proof (cases "con_ctype h c = Constraint")
      case c1: True
      then have "classify_old h cur_cons cur_sos cs (oc @ [c]) os = Inr (oc', os')"
        using Cons.prems True by auto
      from Cons.IH[OF this] True show ?thesis by auto
    next
      case c2: False
      then have "classify_old h cur_cons cur_sos cs oc (os @ [c]) = Inr (oc', os')"
        using Cons.prems True by (auto split: if_splits)
      from Cons.IH[OF this] True show ?thesis by auto
    qed
  qed
qed

lemma discover_current_constraint:
  assumes "discover w = Inr d"
    and "update_constraints (update_config (self w))"
    and "model (self w) = Some m"
    and "c \<in> set (block_constraints (blocks (heap w) m))"
    and "c \<in> set (keys (vars_referenced_by_con (self w)))"
  shows "c \<in> set (cons_to_update d) \<and> c \<notin> set (old_cons d) \<and> c \<notin> set (old_sos d) \<and>
         c \<notin> set (new_cons d) \<and> c \<notin> set (new_sos d)"
proof -
  let ?b = "blocks (heap w) m"
  from assms(1,2,3) have "\<exists>oc os.
      classify_old (heap w) (dict_of_keys (block_constraints ?b))
           (dict_of_keys (block_sos_constraints ?b)) (keys (vars_referenced_by_con (self w)))
           [] [] = Inr (oc, os) \<and>
      old_cons d = oc \<and> old_sos d = os \<and>
      new_cons d = filter (\<lambda>c. c \<notin> set (keys (vars_referenced_by_con (self w))))
                     (dict_of_keys (block_constraints ?b)) \<and>
      new_sos d = filter (\<lambda>c. c \<notin> set (keys (vars_referenced_by_con (self w))))
                     (dict_of_keys (block_sos_constraints ?b)) \<and>
      current_cons_dict d = dict_of_keys (block_constraints ?b)"
    by (auto simp: discover_def the_model_def Let_def split: sum.splits prod.splits)
  then obtain oc os where
    co: "classify_old (heap w) (dict_of_keys (block_constraints ?b))
           (dict_of_keys (block_sos_constraints ?b)) (keys (vars_referenced_by_con (self w)))
           [] [] = Inr (oc, os)"
    and d: "old_cons d = oc" "old_sos d = os"
      "new_cons d = filter (\<lambda>c. c \<notin> set (keys (vars_referenced_by_con (self w))))
                     (dict_of_keys (block_constraints ?b))"
      "new_sos d = filter (\<lambda>c. c \<notin> set (keys (vars_referenced_by_con (self w))))
                     (dict_of_keys (block_sos_constraints ?b))"
      "current_cons_dict d = dict_of_keys (block_constraints ?b)"
    by blast
  from classify_old_sets[OF co] assms(4,5) show ?thesis
    by (auto simp: cons_to_update_def d)
qed

lemma diff_vars_loop_mono:
  "diff_vars_loop s h vs acc = Inr res \<Longrightarrow> set (fst (snd acc)) \<subseteq> set (fst (snd res))"
proof (induction vs arbitrary: acc)
  case Nil
  then show ?case by auto
next
  case (Cons v vs)
  obtain vtu cra need where acc: "acc = (vtu, cra, need)" by (cases acc) auto
  from Cons.prems obtain t where t: "map_of (vars s) v = Some t"
    unfolding acc by (cases "map_of (vars s) v") auto
  have "\<exists>acc'. diff_vars_loop s h vs acc' = Inr res \<and> set cra \<subseteq> set (fst (snd acc'))"
    using Cons.prems unfolding acc
    by (cases t) (force simp: t split: if_splits option.splits)
  then obtain acc' where "diff_vars_loop s h vs acc' = Inr res" "set cra \<subseteq> set (fst (snd acc'))"
    by blast
  with Cons.IH[of acc'] show ?case unfolding acc by auto
qed

lemma diff_vars_mono:
  "diff_vars d cra w = Inr (vtu, cra', need) \<Longrightarrow> set cra \<subseteq> set cra'"
  using diff_vars_loop_mono[of "self w" "heap w" "vars_to_check d (self w)" "([], cra, False)"
      "(vtu, cra', need)"]
  by (auto simp: diff_vars_def split: if_splits)

lemma recorded_stable:
  "con \<noteq> c \<Longrightarrow> add_stable (\<lambda>w. map_of (active_constraints (self w)) c = x) con"
  "con \<noteq> c \<Longrightarrow> remove_stable (\<lambda>w. map_of (active_constraints (self w)) c = x) con"
  "vars_add_stable (\<lambda>w. map_of (active_constraints (self w)) c = x)"
  "vars_remove_stable (\<lambda>w. map_of (active_constraints (self w)) c = x)"
  "heap_stable (\<lambda>w. map_of (active_constraints (self w)) c = x)"
  "params_stable (\<lambda>w. map_of (active_constraints (self w)) c = x)"
  "calls_stable (\<lambda>w. map_of (active_constraints (self w)) c = x)"
  by (auto simp: stable_defs prim_defs AList.update_conv' AList.delete_conv' split: option.splits)

lemma recorded_kept:
  assumes "c \<notin> set cs"
  shows "preserves (\<lambda>w. map_of (active_constraints (self w)) c = x) (remove_constraints cs)"
    and "preserves (\<lambda>w. map_of (active_constraints (self w)) c = x) (remove_sos_constraints cs)"
    and "preserves (\<lambda>w. map_of (active_constraints (self w)) c = x) (add_constraints cs)"
    and "preserves (\<lambda>w. map_of (active_constraints (self w)) c = x) (add_sos_constraints cs)"
proof -
  have ne: "con \<noteq> c" if "con \<in> set cs" for con using that assms by auto
  note rs = recorded_stable[where c=c and x=x]
  show "preserves (\<lambda>w. map_of (active_constraints (self w)) c = x) (remove_constraints cs)"
    by (intro preserves_remove_constraints rs ne preserves_check_to_remove_vars calls_stableD)
  show "preserves (\<lambda>w. map_of (active_constraints (self w)) c = x) (remove_sos_constraints cs)"
    by (intro preserves_remove_sos_constraints rs ne preserves_check_to_remove_vars calls_stableD)
  show "preserves (\<lambda>w. map_of (active_constraints (self w)) c = x) (add_constraints cs)"
    by (intro preserves_add_constraints rs ne preserves_check_for_new_vars calls_stableD)
  show "preserves (\<lambda>w. map_of (active_constraints (self w)) c = x) (add_sos_constraints cs)"
    by (intro preserves_add_sos_constraints rs ne preserves_check_for_new_vars calls_stableD)
qed

lemma remove_constraints_calls:
  "calls_extend (calls w @ [Remove_constraints cons]) (fst (remove_constraints cons w))"
  unfolding remove_constraints_def
  by (intro backend_then_loop_calls preserves_remove_constraints_body
      preserves_check_to_remove_vars calls_extend_stable)

lemma add_constraints_calls:
  assumes "add_constraints cons w = (w', None)"
  shows "\<exists>mid. calls w' = calls w @ mid @ [Add_constraints cons]"
proof -
  from assms obtain w2 afv where
    l: "add_constraints_loop cons [] w = (w2, Inr afv)"
    and r: "run [backend (Add_constraints cons),
                 for_each (\<lambda>v. modify_heap (var_fix v)) afv] w2 = (w', None)"
    by (auto simp: add_constraints_def split: prod.splits sum.splits)
  have 1: "add_stable (calls_extend (calls w)) con" for con by (rule calls_extend_stable)
  have 2: "preserves (calls_extend (calls w)) (check_for_new_vars vs)" for vs
    by (rule preserves_check_for_new_vars[OF calls_extend_stable(7)])
  have 3: "preserves (calls_extend (calls w)) (modify_heap (var_unfix v))" for v
    using calls_extend_stable(2)[of "calls w"] by (simp add: heap_stable_def)
  have 4: "calls_extend (calls w) w" by (simp add: calls_extend_def)
  have "calls_extend (calls w) (fst (add_constraints_loop cons [] w))"
    by (rule add_constraints_loop_keeps[OF 1 2 3 4])
  then obtain mid where "calls w2 = calls w @ mid" using l by (auto simp: calls_extend_def)
  moreover from r have "calls w' = calls w2 @ [Add_constraints cons]"
    by (auto simp: run.simps backend_def for_each_modify_heap split: if_splits)
  ultimately show ?thesis by simp
qed

lemma changed_constraint_removed_and_added:
  assumes ok: "update w = (w', None)"
    and uc: "update_constraints (update_config (self w))"
    and m: "model (self w) = Some m"
    and cur: "c \<in> set (block_constraints (blocks (heap w) m))"
    and tr: "c \<in> set (keys (vars_referenced_by_con (self w)))"
    and snap: "map_of (active_constraints (self w)) c = Some (Some (lower, body, upper))"
    and ch: "to_remove_and_add (lower, body, upper)
               (con_lower (heap w) c, con_body (heap w) c, con_upper (heap w) c)"
  shows "\<exists>L pre mid post. c \<in> set L \<and>
           calls w' = calls w @ pre @ Remove_constraints L # mid @ Add_constraints L # post"
proof -
  from ok obtain d w1 w2 w3 w4 w5 w6 w7 w8 cra1 w9 vtu cra2 need w10 w11 w12 ctu w13 need'
    pyomo_obj w14
    where d: "discover w = Inr d"
    and s1: "remove_constraints (old_cons d) w = (w1, None)"
    and s2: "remove_sos_constraints (old_sos d) w1 = (w2, None)"
    and s3: "remove_params (old_params d) w2 = (w3, None)"
    and s4: "only_if (update_params (update_config (self w3))) (backend Update_params) w3
               = (w4, None)"
    and s5: "add_params (new_params d) w4 = (w5, None)"
    and s6: "add_variables (new_vars d) w5 = (w6, None)"
    and s7: "add_constraints (new_cons d) w6 = (w7, None)"
    and s8: "add_sos_constraints (new_sos d) w7 = (w8, None)"
    and dc: "diff_constraints d w8 = Inr cra1"
    and s9: "only_if (update_constraints (update_config (self w8)))
           (run [remove_sos_constraints (sos_to_update d),
                 add_sos_constraints (sos_to_update d)]) w8 = (w9, None)"
    and dv: "diff_vars d cra1 w9 = Inr (vtu, cra2, need)"
    and s10: "only_if (update_vars (update_config (self w9))) (update_variables vtu) w9
                = (w10, None)"
    and s11: "remove_constraints cra2 w10 = (w11, None)"
    and s12: "add_constraints cra2 w11 = (w12, None)"
    and dn: "diff_named_expressions d w12 = Inr ctu"
    and s13: "only_if (update_named_expressions (update_config (self w12)))
           (run [remove_constraints ctu, add_constraints ctu]) w12 = (w13, None)"
    and co: "check_objective need w13 = Inr (need', pyomo_obj)"
    and s14: "only_if need' (set_objective pyomo_obj) w13 = (w14, None)"
    and s15: "remove_variables (old_vars d) w14 = (w', None)"
    by (rule update_successE)
  from discover_current_constraint[OF d uc m cur tr]
  have c: "c \<in> set (cons_to_update d)" "c \<notin> set (old_cons d)" "c \<notin> set (old_sos d)"
    "c \<notin> set (new_cons d)" "c \<notin> set (new_sos d)"
    by simp_all
  \<comment> \<open>the record of the constraint is untouched until the comparison\<close>
  let ?R = "\<lambda>w. map_of (active_constraints (self w)) c = Some (Some (lower, body, upper))"
  note rk = recorded_kept[where c=c and x="Some (Some (lower, body, upper))"]
  note rs = recorded_stable[where c=c and x="Some (Some (lower, body, upper))"]
  have "?R w1" by (rule step_keeps[OF rk(1)[OF c(2)] s1 snap])
  then have "?R w2" by (rule step_keeps[OF rk(2)[OF c(3)] s2])
  then have "?R w3" by (rule step_keeps[OF preserves_remove_params[OF rs(6,7)] s3])
  then have "?R w4" by (rule only_if_keeps[OF calls_stableD[OF rs(7)] s4])
  then have "?R w5" by (rule step_keeps[OF preserves_add_params[OF rs(6,7)] s5])
  then have "?R w6" by (rule step_keeps[OF preserves_add_variables[OF rs(3)] s6])
  then have "?R w7" by (rule step_keeps[OF rk(3)[OF c(4)] s7])
  then have r8: "?R w8" by (rule step_keeps[OF rk(4)[OF c(5)] s8])
  \<comment> \<open>so are the configuration and the attributes of the constraint\<close>
  let ?S = "\<lambda>w'. (update_config (self w') = update_config (self w) \<and>
                   only_child_vars (self w') = only_child_vars (self w) \<and>
                   model (self w') = model (self w) \<and> raises w' = raises w) \<and>
                  (\<exists>f. heap w' = (heap w)\<lparr>var_fixed := f\<rparr>)"
  have st: "stable ?S" by (rule stable_conj[OF config_is_stable attributes_are_stable])
  note sp = stable_preserves[OF st]
  have "?S w" by (auto intro: exI[of _ "var_fixed (heap w)"])
  then have "?S w1" by (rule step_keeps[OF sp(9) s1])
  then have "?S w2" by (rule step_keeps[OF sp(11) s2])
  then have "?S w3" by (rule step_keeps[OF sp(7) s3])
  then have "?S w4" by (rule only_if_keeps[OF sp(13) s4])
  then have "?S w5" by (rule step_keeps[OF sp(6) s5])
  then have "?S w6" by (rule step_keeps[OF sp(1) s6])
  then have "?S w7" by (rule step_keeps[OF sp(8) s7])
  then have "?S w8" by (rule step_keeps[OF sp(10) s8])
  then obtain f where cfg8: "update_config (self w8) = update_config (self w)"
    and h8: "heap w8 = (heap w)\<lparr>var_fixed := f\<rparr>" by blast
  have live8: "con_lower (heap w8) c = con_lower (heap w) c"
    "con_body (heap w8) c = con_body (heap w) c" "con_upper (heap w8) c = con_upper (heap w) c"
    by (simp_all add: h8)
  \<comment> \<open>the comparison finds the constraint\<close>
  have "diff_constraints_loop (self w8) (heap w8) (cons_to_update d) [] = Inr cra1"
    using dc uc cfg8 by (simp add: diff_constraints_def)
  from diff_constraints_loop_set[OF this] c(1) r8 ch live8
  have "c \<in> set cra1" by simp
  with diff_vars_mono[OF dv] have c2: "c \<in> set cra2" by auto
  \<comment> \<open>the backend calls\<close>
  note ce = stable_preserves[OF calls_extend_is_stable]
  have "calls_extend (calls w) w" by (simp add: calls_extend_def)
  then have "calls_extend (calls w) w1" by (rule step_keeps[OF ce(9) s1])
  then have "calls_extend (calls w) w2" by (rule step_keeps[OF ce(11) s2])
  then have "calls_extend (calls w) w3" by (rule step_keeps[OF ce(7) s3])
  then have "calls_extend (calls w) w4" by (rule only_if_keeps[OF ce(13) s4])
  then have "calls_extend (calls w) w5" by (rule step_keeps[OF ce(6) s5])
  then have "calls_extend (calls w) w6" by (rule step_keeps[OF ce(1) s6])
  then have "calls_extend (calls w) w7" by (rule step_keeps[OF ce(8) s7])
  then have "calls_extend (calls w) w8" by (rule step_keeps[OF ce(10) s8])
  then have "calls_extend (calls w) w9"
    by (rule only_if_keeps[OF preserves_run2[OF ce(11) ce(10)] s9])
  then have "calls_extend (calls w) w10" by (rule only_if_keeps[OF ce(5) s10])
  then obtain pre where p: "calls w10 = calls w @ pre" by (auto simp: calls_extend_def)
  from remove_constraints_calls[of w10 cra2] s11
  obtain mid1 where m1: "calls w11 = calls w10 @ Remove_constraints cra2 # mid1"
    by (auto simp: calls_extend_def)
  from add_constraints_calls[OF s12]
  obtain mid2 where m2: "calls w12 = calls w11 @ mid2 @ [Add_constraints cra2]" by blast
  have "calls_extend (calls w12) w12" by (simp add: calls_extend_def)
  then have "calls_extend (calls w12) w13"
    by (rule only_if_keeps[OF preserves_run2[OF ce(9) ce(8)] s13])
  then have "calls_extend (calls w12) w14" by (rule only_if_keeps[OF ce(12) s14])
  then have "calls_extend (calls w12) w'" by (rule step_keeps[OF ce(2) s15])
  then obtain post where po: "calls w' = calls w12 @ post" by (auto simp: calls_extend_def)
  have "calls w' = calls w @ pre @ Remove_constraints cra2 # (mid1 @ mid2)
                     @ Add_constraints cra2 # post"
    by (simp add: po m2 m1 p)
  with c2 show ?thesis by blast
qed

text \<open>
  C4. The constraint diffing of the synchronization pass (lines 593 to 618) returns for
  constraints that were added as constraints, and it puts a compared constraint into
  \<open>cons_to_remove_and_add\<close> if and only if its body is another object than the recorded one
  or one of its bounds is changed, where a bound is unchanged when it is the same object or
  when old and new are both \<open>NumericConstant\<close>s with equal value: a bound replaced by a
  numerically equal constant leaves the constraint unchanged, any other identity difference in
  a bound makes it changed.
  A changed bound forces the removal and the addition: a pass that returns calls
  \<open>_remove_constraints\<close> and later \<open>_add_constraints\<close> with one and the same list, which has
  the constraint.
\<close>

theorem bounds_classification:
  "(update_constraints (update_config (self w)) \<and>
    (\<forall>c\<in>set (cons_to_update d).
        \<exists>recorded. map_of (active_constraints (self w)) c = Some (Some recorded)) \<longrightarrow>
      (\<exists>L. diff_constraints d w = Inr L \<and>
         (\<forall>c\<in>set (cons_to_update d). \<forall>lower body upper.
            map_of (active_constraints (self w)) c = Some (Some (lower, body, upper)) \<longrightarrow>
              (c \<in> set L \<longleftrightarrow>
                 id_of (con_body (heap w) c) \<noteq> id_of body \<or>
                 \<not> bound_unchanged (con_lower (heap w) c) lower \<or>
                 \<not> bound_unchanged (con_upper (heap w) c) upper)))) \<and>
   (update w = (w', None) \<and> update_constraints (update_config (self w)) \<and>
    model (self w) = Some m \<and> c \<in> set (block_constraints (blocks (heap w) m)) \<and>
    c \<in> set (keys (vars_referenced_by_con (self w))) \<and>
    map_of (active_constraints (self w)) c = Some (Some (lower, body, upper)) \<and>
    (\<not> bound_unchanged (con_lower (heap w) c) lower \<or>
     \<not> bound_unchanged (con_upper (heap w) c) upper) \<longrightarrow>
      (\<exists>L pre mid post. c \<in> set L \<and>
         calls w' = calls w @ pre @ Remove_constraints L # mid @ Add_constraints L # post))"
proof (intro conjI impI)
  assume a: "update_constraints (update_config (self w)) \<and>
    (\<forall>c\<in>set (cons_to_update d).
        \<exists>recorded. map_of (active_constraints (self w)) c = Some (Some recorded))"
  then obtain L where
    L: "diff_constraints_loop (self w) (heap w) (cons_to_update d) [] = Inr L"
    using diff_constraints_loop_total[of "cons_to_update d" "self w" "heap w" "[]"] by blast
  from diff_constraints_loop_set[OF L]
  have "\<forall>c\<in>set (cons_to_update d). \<forall>lower body upper.
            map_of (active_constraints (self w)) c = Some (Some (lower, body, upper)) \<longrightarrow>
              (c \<in> set L \<longleftrightarrow>
                 id_of (con_body (heap w) c) \<noteq> id_of body \<or>
                 \<not> bound_unchanged (con_lower (heap w) c) lower \<or>
                 \<not> bound_unchanged (con_upper (heap w) c) upper)"
    by (simp add: to_remove_and_add_iff)
  with L a show "\<exists>L. diff_constraints d w = Inr L \<and>
         (\<forall>c\<in>set (cons_to_update d). \<forall>lower body upper.
            map_of (active_constraints (self w)) c = Some (Some (lower, body, upper)) \<longrightarrow>
              (c \<in> set L \<longleftrightarrow>
                 id_of (con_body (heap w) c) \<noteq> id_of body \<or>
                 \<not> bound_unchanged (con_lower (heap w) c) lower \<or>
                 \<not> bound_unchanged (con_upper (heap w) c) upper))"
    by (simp add: diff_constraints_def)
next
  assume a: "update w = (w', None) \<and> update_constraints (update_config (self w)) \<and>
    model (self w) = Some m \<and> c \<in> set (block_constraints (blocks (heap w) m)) \<and>
    c \<in> set (keys (vars_referenced_by_con (self w))) \<and>
    map_of (active_constraints (self w)) c = Some (Some (lower, body, upper)) \<and>
    (\<not> bound_unchanged (con_lower (heap w) c) lower \<or>
     \<not> bound_unchanged (con_upper (heap w) c) upper)"
  then have "to_remove_and_add (lower, body, upper)
               (con_lower (heap w) c, con_body (heap w) c, con_upper (heap w) c)"
    by (auto simp: to_remove_and_add_iff)
  with a show "\<exists>L pre mid post. c \<in> set L \<and>
         calls w' = calls w @ pre @ Remove_constraints L # mid @ Add_constraints L # post"
    by (intro changed_constraint_removed_and_added) auto
qed

theorem bounds_classification_witness:
  "discover (rebound 0) = Inr small_discovery \<and>
   diff_constraints small_discovery (rebound 0) = Inr [] \<and>
   discover (rebound 1) = Inr small_discovery \<and>
   diff_constraints small_discovery (rebound 1) = Inr [1] \<and>
   map_of (active_constraints (self (rebound 1))) 1
     = Some (Some (Some (NumericConstant 20 0), ExpressionNode 10 [VarLeaf 2, VarLeaf 3], None)) \<and>
   con_lower (heap (rebound 1)) 1 = Some (NumericConstant 21 1) \<and>
   bound_unchanged (Some (NumericConstant 21 0)) (Some (NumericConstant 20 0)) \<and>
   \<not> bound_unchanged (Some (NumericConstant 21 1)) (Some (NumericConstant 20 0)) \<and>
   snd (update (rebound 1)) = None \<and>
   (\<exists>L pre mid post. 1 \<in> set L \<and>
      calls (fst (update (rebound 1)))
        = calls (rebound 1) @ pre @ Remove_constraints L # mid @ Add_constraints L # post)"
proof -
  let ?rec = "(Some (NumericConstant 20 0), ExpressionNode 10 [VarLeaf 2, VarLeaf 3], None)"
  have d: "discover (rebound x) = Inr small_discovery" for x
    by (simp add: exec_defs3 rebound_def small_discovery_def)
  have cu: "cons_to_update small_discovery = [1]"
    by (simp add: cons_to_update_def small_discovery_def)
  have uc: "update_constraints (update_config (self (rebound x)))"
    and f: "map_of (active_constraints (self (rebound x))) 1 = Some (Some ?rec)"
    and g: "con_lower (heap (rebound x)) 1 = Some (NumericConstant 21 x)"
      "con_upper (heap (rebound x)) 1 = None"
      "con_body (heap (rebound x)) 1 = ExpressionNode 10 [VarLeaf 2, VarLeaf 3]"
    and mo: "model (self (rebound x)) = Some 0"
    and cur: "1 \<in> set (block_constraints (blocks (heap (rebound x)) 0))"
    and tr: "1 \<in> set (keys (vars_referenced_by_con (self (rebound x))))"
    for x
    by (simp_all add: exec_defs3 rebound_def)
  have b0: "diff_constraints small_discovery (rebound 0) = Inr []"
    and b1: "diff_constraints small_discovery (rebound 1) = Inr [1]"
    by (simp_all add: exec_defs3 rebound_def small_discovery_def)
  have s: "snd (update (rebound 1)) = None"
    by (simp add: exec_defs3 rebound_def)
  then have u: "update (rebound 1) = (fst (update (rebound 1)), None)"
    by (simp add: prod_eq_iff)
  have up: "bound_unchanged None None" by (simp add: bound_unchanged_def same_object_def)
  have one: "1 \<in> set (cons_to_update small_discovery)" by (simp add: cu)
  have h: "\<forall>c\<in>set (cons_to_update small_discovery).
        \<exists>recorded. map_of (active_constraints (self (rebound x))) c = Some (Some recorded)" for x
    using f[of x] by (simp add: cu)
  note t0 = conjunct1[OF bounds_classification[where w="rebound 0" and d=small_discovery]]
  note t1 = conjunct1[OF bounds_classification[where w="rebound 1" and d=small_discovery]]
  note t2 = conjunct2[OF bounds_classification[where w="rebound 1"
      and w'="fst (update (rebound 1))" and m=0 and c=1
      and lower="Some (NumericConstant 20 0)"
      and body="ExpressionNode 10 [VarLeaf 2, VarLeaf 3]" and upper=None]]
  from t0 uc[of 0] h[of 0] obtain L0 where
    L0: "diff_constraints small_discovery (rebound 0) = Inr L0"
    and i0: "\<forall>c\<in>set (cons_to_update small_discovery). \<forall>lower body upper.
            map_of (active_constraints (self (rebound 0))) c = Some (Some (lower, body, upper)) \<longrightarrow>
              (c \<in> set L0 \<longleftrightarrow>
                 id_of (con_body (heap (rebound 0)) c) \<noteq> id_of body \<or>
                 \<not> bound_unchanged (con_lower (heap (rebound 0)) c) lower \<or>
                 \<not> bound_unchanged (con_upper (heap (rebound 0)) c) upper)"
    by blast
  from L0 b0 have "L0 = []" by simp
  with bspec[OF i0 one, THEN spec, THEN spec, THEN spec,
      of "Some (NumericConstant 20 0)" "ExpressionNode 10 [VarLeaf 2, VarLeaf 3]" None]
    f[of 0] g[of 0]
  have e0: "bound_unchanged (Some (NumericConstant 21 0)) (Some (NumericConstant 20 0))"
    by simp
  from t1 uc[of 1] h[of 1] obtain L1 where
    L1: "diff_constraints small_discovery (rebound 1) = Inr L1"
    and i1: "\<forall>c\<in>set (cons_to_update small_discovery). \<forall>lower body upper.
            map_of (active_constraints (self (rebound 1))) c = Some (Some (lower, body, upper)) \<longrightarrow>
              (c \<in> set L1 \<longleftrightarrow>
                 id_of (con_body (heap (rebound 1)) c) \<noteq> id_of body \<or>
                 \<not> bound_unchanged (con_lower (heap (rebound 1)) c) lower \<or>
                 \<not> bound_unchanged (con_upper (heap (rebound 1)) c) upper)"
    by blast
  from L1 b1 have "L1 = [1]" by simp
  with bspec[OF i1 one, THEN spec, THEN spec, THEN spec,
      of "Some (NumericConstant 20 0)" "ExpressionNode 10 [VarLeaf 2, VarLeaf 3]" None]
    f[of 1] g[of 1] up
  have e1: "\<not> bound_unchanged (Some (NumericConstant 21 1)) (Some (NumericConstant 20 0))"
    by simp
  from t2 u uc[of 1] mo[of 1] cur[of 1] tr[of 1] f[of 1] e1 g(1)[of 1]
  have "\<exists>L pre mid post. 1 \<in> set L \<and>
      calls (fst (update (rebound 1)))
        = calls (rebound 1) @ pre @ Remove_constraints L # mid @ Add_constraints L # post"
    by simp
  with d[of 0] d[of 1] b0 b1 f[of 1] g(1)[of 1] e0 e1 s show ?thesis by simp
qed

text \<open>
  C5. In a synchronization pass that returns, with \<open>update_constraints\<close> on, every constraint
  that is still an active constraint of the model, was added before, and whose body is
  another object than the body recorded when it was added, is removed from and added again
  to the backend: the pass calls \<open>_remove_constraints\<close> and later \<open>_add_constraints\<close> with one
  and the same list, which has the constraint. Only the identity of the body counts, not its
  structure.
\<close>

theorem changed_body_removed_and_added:
  assumes ok: "update w = (w', None)"
    and uc: "update_constraints (update_config (self w))"
    and m: "model (self w) = Some m"
    and cur: "c \<in> set (block_constraints (blocks (heap w) m))"
    and tr: "c \<in> set (keys (vars_referenced_by_con (self w)))"
    and snap: "map_of (active_constraints (self w)) c = Some (Some (lower, body, upper))"
    and ch: "id_of (con_body (heap w) c) \<noteq> id_of body"
  shows "\<exists>L pre mid post. c \<in> set L \<and>
           calls w' = calls w @ pre @ Remove_constraints L # mid @ Add_constraints L # post"
proof -
  from ch have "to_remove_and_add (lower, body, upper)
                  (con_lower (heap w) c, con_body (heap w) c, con_upper (heap w) c)"
    by (simp add: to_remove_and_add_iff)
  with ok uc m cur tr snap show ?thesis by (rule changed_constraint_removed_and_added)
qed

theorem changed_body_removed_and_added_witness:
  "update_constraints (update_config (self rebuilt)) \<and>
   model (self rebuilt) = Some 0 \<and>
   map_of (active_constraints (self rebuilt)) 1
     = Some (Some (Some (NumericConstant 20 0), ExpressionNode 10 [VarLeaf 2, VarLeaf 3], None)) \<and>
   con_body (heap rebuilt) 1 = ExpressionNode 11 [VarLeaf 2, VarLeaf 3] \<and>
   snd (update rebuilt) = None \<and>
   (\<exists>L pre mid post. 1 \<in> set L \<and>
      calls (fst (update rebuilt))
        = calls rebuilt @ pre @ Remove_constraints L # mid @ Add_constraints L # post)"
proof -
  have s: "snd (update rebuilt) = None"
    by (simp add: exec_defs3 rebuilt_def)
  then have u: "update rebuilt = (fst (update rebuilt), None)"
    by (simp add: prod_eq_iff)
  have a: "update_constraints (update_config (self rebuilt))"
    and b: "model (self rebuilt) = Some 0"
    and c: "1 \<in> set (block_constraints (blocks (heap rebuilt) 0))"
    and d: "1 \<in> set (keys (vars_referenced_by_con (self rebuilt)))"
    and e: "map_of (active_constraints (self rebuilt)) 1
     = Some (Some (Some (NumericConstant 20 0), ExpressionNode 10 [VarLeaf 2, VarLeaf 3], None))"
    and f: "con_body (heap rebuilt) 1 = ExpressionNode 11 [VarLeaf 2, VarLeaf 3]"
    by (simp_all add: exec_defs3 rebuilt_def)
  have g: "id_of (con_body (heap rebuilt) 1)
             \<noteq> id_of (ExpressionNode 10 [VarLeaf 2, VarLeaf 3])"
    using f by simp
  from changed_body_removed_and_added[OF u a b c d e g] s a b e f
  show ?thesis by simp
qed

subsection \<open>Replacing the objective\<close>
















end
